theory Spec2Isabelle
  imports Complex_Main
begin

section \<open>Data model\<close>

text \<open>
  The program is a Mesa agent-based model (\<^verbatim>\<open>agents.py\<close>).  An agent object is identified by its \<^verbatim>\<open>unique_id\<close>: a
  \<^verbatim>\<open>PollutionCell\<close> is created with its position tuple as identifier, every other
  agent with an integer.  The scheduler's insertion-ordered dictionary
  \<^verbatim>\<open>schedule._agents\<close> is the association list \<open>agents\<close>; it is the store of the
  objects, and the grid holds references (identifiers) into it.
\<close>

subsection \<open>Python floats\<close>

text \<open>
  A Python float is an IEEE 754 binary64 number: a rational with a 53-bit significand
  and an exponent between -1022 and 1023, an infinity, or a NaN.  Every arithmetic
  operation returns the exact result rounded to the nearest such number, ties to the
  even significand, and an infinity when the rounded result leaves the range.  The two
  zeros are not told apart (they are equal in Python, and the program neither divides by
  a pollution value nor prints the sign of a zero into its state).  \<open>bit_length\<close> is
  the number of binary digits of a positive integer.
\<close>

datatype double = Finite rat | PlusInf | MinusInf | NaN

function bit_length :: "int \<Rightarrow> int" where
  "bit_length n = (if n \<le> 0 then 0 else bit_length (n div 2) + 1)"
  by pat_completeness auto

termination
  by (relation "measure nat") auto

declare bit_length.simps [simp del]

definition pow2 :: "int \<Rightarrow> rat" where
  "pow2 k = (if 0 \<le> k then of_int (2 ^ nat k) else 1 / of_int (2 ^ nat (- k)))"

text \<open>The exponent \<open>e\<close> with \<open>2 ^ e \<le> \<bar>x\<bar> < 2 ^ (e + 1)\<close>, for \<open>x \<noteq> 0\<close>.\<close>

definition floor_log2 :: "rat \<Rightarrow> int" where
  "floor_log2 x =
     (case quotient_of \<bar>x\<bar> of (a, b) \<Rightarrow>
        let d = bit_length a - bit_length b
        in if pow2 d \<le> \<bar>x\<bar> then d else d - 1)"

definition round_half_even :: "rat \<Rightarrow> int" where
  "round_half_even q =
     (let f = \<lfloor>q\<rfloor>; r = q - of_int f
      in if r < 1 / 2 then f else if 1 / 2 < r then f + 1 else if even f then f else f + 1)"

definition signed_inf :: "rat \<Rightarrow> double" where
  "signed_inf x = (if 0 < x then PlusInf else MinusInf)"

text \<open>
  Rounding to binary64.  The spacing of the doubles around \<open>x\<close> is \<open>2 ^ (e - 52)\<close>,
  where \<open>e\<close> is the exponent of \<open>x\<close> but at least -1022 (below, the subnormal numbers
  have the fixed spacing \<open>2 ^ - 1074\<close>); \<open>x\<close> is rounded to a multiple of the spacing,
  and a result of magnitude \<open>2 ^ 1024\<close> or more is an infinity.
\<close>

definition round_double :: "rat \<Rightarrow> double" where
  "round_double x =
     (if x = 0 then Finite 0
      else
        let e = max (floor_log2 x) (- 1022)
        in if 1024 \<le> e then signed_inf x
           else
             let ulp = pow2 (e - 52);
                 n = round_half_even (x / ulp)
             in if e = 1023 \<and> \<bar>n\<bar> = 2 ^ 53 then signed_inf x
                else Finite (of_int n * ulp))"

text \<open>\<^verbatim>\<open>x + y\<close> and \<^verbatim>\<open>x * y\<close> on floats.\<close>

fun fadd :: "double \<Rightarrow> double \<Rightarrow> double" where
  "fadd (Finite a) (Finite b) = round_double (a + b)"
| "fadd NaN y = NaN"
| "fadd x NaN = NaN"
| "fadd PlusInf MinusInf = NaN"
| "fadd MinusInf PlusInf = NaN"
| "fadd PlusInf y = PlusInf"
| "fadd x PlusInf = PlusInf"
| "fadd MinusInf y = MinusInf"
| "fadd x MinusInf = MinusInf"

fun fmul :: "double \<Rightarrow> double \<Rightarrow> double" where
  "fmul (Finite a) (Finite b) = round_double (a * b)"
| "fmul NaN y = NaN"
| "fmul x NaN = NaN"
| "fmul (Finite a) y = (if a = 0 then NaN else if (0 < a) = (y = PlusInf) then PlusInf else MinusInf)"
| "fmul x (Finite b) = (if b = 0 then NaN else if (0 < b) = (x = PlusInf) then PlusInf else MinusInf)"
| "fmul x y = (if x = y then PlusInf else MinusInf)"

text \<open>
  \<^verbatim>\<open>x / n\<close> for a float \<open>x\<close> and a positive integer \<open>n\<close> below \<open>2 ^ 53\<close>, which converts
  to a float exactly.  Python raises \<^verbatim>\<open>ZeroDivisionError\<close> for \<open>n = 0\<close>; the program
  divides by \<^verbatim>\<open>len(neighbors) + 1\<close> and by a count that it has tested to be positive.
\<close>

definition truediv :: "double \<Rightarrow> nat \<Rightarrow> double" where
  "truediv x n =
     (case x of Finite a \<Rightarrow> round_double (a / of_nat n) | PlusInf \<Rightarrow> PlusInf
              | MinusInf \<Rightarrow> MinusInf | NaN \<Rightarrow> NaN)"

text \<open>\<^verbatim>\<open>x > y\<close>: a comparison with a NaN is false.\<close>

fun greater :: "double \<Rightarrow> double \<Rightarrow> bool" where
  "greater (Finite a) (Finite b) = (a > b)"
| "greater NaN y = False"
| "greater x NaN = False"
| "greater PlusInf y = (y \<noteq> PlusInf)"
| "greater x MinusInf = (x \<noteq> MinusInf)"
| "greater x y = False"

text \<open>The float literals \<^verbatim>\<open>0.9\<close> and \<^verbatim>\<open>0.7\<close> denote the doubles nearest to 9/10 and 7/10.\<close>

definition float_0_9 :: double where
  "float_0_9 = round_double (9 / 10)"

definition float_0_7 :: double where
  "float_0_7 = round_double (7 / 10)"

text \<open>
  The builtin \<^verbatim>\<open>sum\<close> starts from the integer 0.  How it adds floats is not part of
  the program and depends on the interpreter: from left to right up to CPython 3.11, with
  a compensation term from CPython 3.12 on.  The model takes the summation of a
  non-empty list of floats as the component \<open>float_sum\<close> of its state;
  \<open>sum_left_to_right\<close> is the first of the two.  The pollution of a cell is created as
  the integer 0, which is the float 0.0 here: the two are equal, every operation of the
  program gives the same number on both, and the first operation on a cell, its own
  diffusion at the first tick, stores a float.
\<close>

definition sum_left_to_right :: "double list \<Rightarrow> double" where
  "sum_left_to_right xs = fold (\<lambda>x total. fadd total x) xs (Finite 0)"

subsection \<open>Agents and the model\<close>

type_synonym pos = "int \<times> int"

datatype uid = CellId pos | NumId int

datatype agent =
    PollutionCell pos double
  | CarAgent pos
  | FactoryAgent pos
  | TreeAgent pos bool

datatype error = ValueError | IndexError | KeyError | DuplicateAgent

record model =
  width :: int
  height :: int
  agents :: "(uid \<times> agent) list"
  grid :: "pos \<Rightarrow> uid list"
  rand :: "nat \<Rightarrow> nat"
  draws :: nat
  steps :: nat
  samples :: "(double \<times> nat \<times> nat) list"
  float_sum :: "double list \<Rightarrow> double"

text \<open>Sequencing of fallible operations: the first exception aborts.\<close>

definition and_then :: "error + 'a \<Rightarrow> ('a \<Rightarrow> error + 'b) \<Rightarrow> error + 'b" where
  "and_then r f = (case r of Inl e \<Rightarrow> Inl e | Inr x \<Rightarrow> f x)"

fun for_each :: "('a \<Rightarrow> 's \<Rightarrow> error + 's) \<Rightarrow> 'a list \<Rightarrow> 's \<Rightarrow> error + 's" where
  "for_each f [] s = Inr s"
| "for_each f (x # xs) s = and_then (f x s) (for_each f xs)"

subsection \<open>The model's random source\<close>

text \<open>
  \<^verbatim>\<open>self.random\<close> is one generator shared by the model and all agents.  It is the
  stream \<open>rand\<close> of raw draws together with the number \<open>draws\<close> already consumed.
  \<^verbatim>\<open>randrange(n)\<close> raises \<^verbatim>\<open>ValueError\<close> on an empty range, \<^verbatim>\<open>choice(seq)\<close>
  raises \<^verbatim>\<open>IndexError\<close> on an empty sequence.
\<close>

definition randrange :: "int \<Rightarrow> model \<Rightarrow> error + (int \<times> model)" where
  "randrange n m =
     (if n \<le> 0 then Inl ValueError
      else Inr (int (rand m (draws m) mod nat n), m\<lparr>draws := Suc (draws m)\<rparr>))"

definition choice :: "'a list \<Rightarrow> model \<Rightarrow> error + ('a \<times> model)" where
  "choice xs m =
     (if xs = [] then Inl IndexError
      else Inr (xs ! (rand m (draws m) mod length xs), m\<lparr>draws := Suc (draws m)\<rparr>))"

subsection \<open>The grid (\<^verbatim>\<open>MultiGrid(width, height, torus=False)\<close>)\<close>

definition out_of_bounds :: "model \<Rightarrow> pos \<Rightarrow> bool" where
  "out_of_bounds m p = (case p of (x, y) \<Rightarrow> x < 0 \<or> x \<ge> width m \<or> y < 0 \<or> y \<ge> height m)"

text \<open>
  \<^verbatim>\<open>get_neighborhood(pos, moore=True, include_center=False)\<close> with the default radius 1
  on a grid that is no torus: the positions of the clipped 3x3 block around \<open>pos\<close>, in
  x-major order, without \<open>pos\<close> itself.
\<close>

definition get_neighborhood :: "model \<Rightarrow> pos \<Rightarrow> pos list" where
  "get_neighborhood m p = (case p of (x, y) \<Rightarrow>
     filter (\<lambda>q. q \<noteq> p)
       (concat (map (\<lambda>nx. map (\<lambda>ny. (nx, ny)) [max 0 (y - 1) .. min (height m) (y + 2) - 1])
                  [max 0 (x - 1) .. min (width m) (x + 2) - 1])))"

text \<open>\<^verbatim>\<open>get_cell_list_contents(pos)\<close>: the references stored in the cell, in order of arrival.\<close>

definition get_cell_list_contents :: "model \<Rightarrow> pos \<Rightarrow> uid list" where
  "get_cell_list_contents m p = grid m p"

definition place_agent :: "uid \<Rightarrow> pos \<Rightarrow> model \<Rightarrow> model" where
  "place_agent u p m = m\<lparr>grid := (grid m)(p := grid m p @ [u])\<rparr>"

definition remove_agent :: "uid \<Rightarrow> pos \<Rightarrow> model \<Rightarrow> model" where
  "remove_agent u p m = m\<lparr>grid := (grid m)(p := remove1 u (grid m p))\<rparr>"

text \<open>Assignment to the fields of the object \<open>u\<close>.\<close>

definition set_agent :: "uid \<Rightarrow> agent \<Rightarrow> model \<Rightarrow> model" where
  "set_agent u a m =
     m\<lparr>agents := map (\<lambda>(k, b). if k = u then (k, a) else (k, b)) (agents m)\<rparr>"

subsection \<open>\<^verbatim>\<open>PollutionCell\<close>\<close>

text \<open>The pollution of the object \<open>v\<close> if it is a \<^verbatim>\<open>PollutionCell\<close> (the \<^verbatim>\<open>isinstance\<close> filter).\<close>

definition cell_pollution :: "model \<Rightarrow> uid \<Rightarrow> double list" where
  "cell_pollution m v =
     (case map_of (agents m) v of Some (PollutionCell q c) \<Rightarrow> [c] | _ \<Rightarrow> [])"

definition builtin_sum :: "model \<Rightarrow> double list \<Rightarrow> double" where
  "builtin_sum m xs = (if xs = [] then Finite 0 else float_sum m xs)"

definition PollutionCell_step :: "uid \<Rightarrow> pos \<Rightarrow> double \<Rightarrow> model \<Rightarrow> model" where
  "PollutionCell_step u p c m =
     (let neighbors = get_neighborhood m p;
          total_pollution =
            fadd (builtin_sum m (concat (map (\<lambda>neighbor.
               concat (map (cell_pollution m) (get_cell_list_contents m neighbor))) neighbors))) c
      in set_agent u (PollutionCell p (truediv total_pollution (length neighbors + 1))) m)"

definition PollutionCell_advance :: "uid \<Rightarrow> pos \<Rightarrow> double \<Rightarrow> model \<Rightarrow> model" where
  "PollutionCell_advance u p c m = set_agent u (PollutionCell p (fmul c float_0_9)) m"

text \<open>
  The body shared by the loops of the other agents over a cell's contents:
  \<^verbatim>\<open>if isinstance(agent, PollutionCell): agent.pollution = f(agent.pollution)\<close>.
\<close>

definition pollution_update :: "(double \<Rightarrow> double) \<Rightarrow> uid \<Rightarrow> model \<Rightarrow> model" where
  "pollution_update f v m =
     (case map_of (agents m) v of
        Some (PollutionCell q c) \<Rightarrow> set_agent v (PollutionCell q (f c)) m
      | _ \<Rightarrow> m)"

subsection \<open>\<^verbatim>\<open>CarAgent\<close>, \<^verbatim>\<open>FactoryAgent\<close>, \<^verbatim>\<open>TreeAgent\<close>\<close>

definition move_agent :: "uid \<Rightarrow> pos \<Rightarrow> pos \<Rightarrow> model \<Rightarrow> model" where
  "move_agent u p new_position m =
     set_agent u (CarAgent new_position) (place_agent u new_position (remove_agent u p m))"

definition CarAgent_step :: "uid \<Rightarrow> pos \<Rightarrow> model \<Rightarrow> error + model" where
  "CarAgent_step u p m =
     (case choice (get_neighborhood m p) m of
        Inl e \<Rightarrow> Inl e
      | Inr (new_position, m1) \<Rightarrow>
          (let m2 = move_agent u p new_position m1
           in Inr (fold (pollution_update (\<lambda>c. fadd c (Finite 10)))
                     (get_cell_list_contents m2 new_position) m2)))"

definition FactoryAgent_step :: "uid \<Rightarrow> pos \<Rightarrow> model \<Rightarrow> model" where
  "FactoryAgent_step u p m =
     fold (pollution_update (\<lambda>c. fadd c (Finite 20))) (get_cell_list_contents m p) m"

definition exceeds_threshold :: "model \<Rightarrow> uid \<Rightarrow> bool" where
  "exceeds_threshold m v =
     (case map_of (agents m) v of Some (PollutionCell q c) \<Rightarrow> greater c (Finite 30) | _ \<Rightarrow> False)"

definition TreeAgent_step :: "uid \<Rightarrow> pos \<Rightarrow> bool \<Rightarrow> model \<Rightarrow> model" where
  "TreeAgent_step u p alive m =
     (if alive then
        (let m1 = fold (pollution_update (\<lambda>c. fmul c float_0_7)) (get_cell_list_contents m p) m
         in if list_ex (exceeds_threshold m1) (get_cell_list_contents m1 p)
            then set_agent u (TreeAgent p False) m1
            else m1)
      else m)"

subsection \<open>The scheduler (\<^verbatim>\<open>SimultaneousActivation\<close>)\<close>

text \<open>
  \<^verbatim>\<open>schedule.step()\<close> calls \<^verbatim>\<open>step()\<close> on every agent in the order of the
  dictionary's keys, then \<^verbatim>\<open>advance()\<close> on every agent in the same order, then counts
  the step.  Only \<^verbatim>\<open>PollutionCell\<close> overrides \<^verbatim>\<open>advance\<close>; the base class does nothing.
\<close>

definition agent_step :: "uid \<Rightarrow> model \<Rightarrow> error + model" where
  "agent_step u m =
     (case map_of (agents m) u of
        None \<Rightarrow> Inl KeyError
      | Some (PollutionCell p c) \<Rightarrow> Inr (PollutionCell_step u p c m)
      | Some (CarAgent p) \<Rightarrow> CarAgent_step u p m
      | Some (FactoryAgent p) \<Rightarrow> Inr (FactoryAgent_step u p m)
      | Some (TreeAgent p alive) \<Rightarrow> Inr (TreeAgent_step u p alive m))"

definition agent_advance :: "uid \<Rightarrow> model \<Rightarrow> error + model" where
  "agent_advance u m =
     (case map_of (agents m) u of
        None \<Rightarrow> Inl KeyError
      | Some (PollutionCell p c) \<Rightarrow> Inr (PollutionCell_advance u p c m)
      | Some _ \<Rightarrow> Inr m)"

definition schedule_step :: "model \<Rightarrow> error + model" where
  "schedule_step m =
     and_then (for_each agent_step (map fst (agents m)) m) (\<lambda>m1.
     and_then (for_each agent_advance (map fst (agents m1)) m1) (\<lambda>m2.
     Inr (m2\<lparr>steps := Suc (steps m2)\<rparr>)))"

subsection \<open>\<^verbatim>\<open>PollutionModel\<close>\<close>

definition average_pollution :: "model \<Rightarrow> double" where
  "average_pollution m =
     (case fold (\<lambda>(u, a) (total_pollution, count).
                   case a of PollutionCell p c \<Rightarrow> (fadd total_pollution c, Suc count)
                           | _ \<Rightarrow> (total_pollution, count))
                (agents m) (Finite 0, 0) of
        (total_pollution, count) \<Rightarrow>
          if count > 0 then truediv total_pollution count else Finite 0)"

definition tree_growth_rate :: "model \<Rightarrow> nat" where
  "tree_growth_rate m =
     sum_list (map (\<lambda>(u, a). case a of TreeAgent p alive \<Rightarrow> (if alive then 1 else 0) | _ \<Rightarrow> 0)
                 (agents m))"

definition tree_death_rate :: "model \<Rightarrow> nat" where
  "tree_death_rate m =
     sum_list (map (\<lambda>(u, a). case a of TreeAgent p alive \<Rightarrow> (if \<not> alive then 1 else 0) | _ \<Rightarrow> 0)
                 (agents m))"

text \<open>\<^verbatim>\<open>datacollector.collect\<close>: one row of the three reporters is appended.\<close>

definition collect :: "model \<Rightarrow> model" where
  "collect m =
     m\<lparr>samples := samples m @ [(average_pollution m, tree_growth_rate m, tree_death_rate m)]\<rparr>"

definition step :: "model \<Rightarrow> error + model" where
  "step m = schedule_step (collect m)"

fun run :: "nat \<Rightarrow> model \<Rightarrow> error + model" where
  "run 0 m = Inr m"
| "run (Suc n) m = and_then (step m) (run n)"

text \<open>
  \<^verbatim>\<open>schedule.add\<close> refuses an identifier that is already registered.
\<close>

definition schedule_add :: "uid \<Rightarrow> agent \<Rightarrow> model \<Rightarrow> error + model" where
  "schedule_add u a m =
     (if u \<in> set (map fst (agents m)) then Inl DuplicateAgent
      else Inr (m\<lparr>agents := agents m @ [(u, a)]\<rparr>))"

definition add_cell :: "pos \<Rightarrow> model \<Rightarrow> error + model" where
  "add_cell p m = schedule_add (CellId p) (PollutionCell p (Finite 0)) (place_agent (CellId p) p m)"

text \<open>
  The body of the three loops that create cars, factories and trees: draw \<open>x\<close>, draw
  \<open>y\<close>, place the agent, register it.
\<close>

definition add_agent :: "(pos \<Rightarrow> agent) \<Rightarrow> int \<Rightarrow> model \<Rightarrow> error + model" where
  "add_agent new_agent i m =
     and_then (randrange (width m) m) (\<lambda>(x, m1).
     and_then (randrange (height m1) m1) (\<lambda>(y, m2).
     schedule_add (NumId i) (new_agent (x, y)) (place_agent (NumId i) (x, y) m2)))"

definition all_positions :: "int \<Rightarrow> int \<Rightarrow> pos list" where
  "all_positions w h = concat (map (\<lambda>x. map (\<lambda>y. (x, y)) [0 .. h - 1]) [0 .. w - 1])"

definition empty_model :: "int \<Rightarrow> int \<Rightarrow> (nat \<Rightarrow> nat) \<Rightarrow> (double list \<Rightarrow> double) \<Rightarrow> model" where
  "empty_model w h r s =
     \<lparr>width = w, height = h, agents = [], grid = (\<lambda>p. []), rand = r, draws = 0, steps = 0,
      samples = [], float_sum = s\<rparr>"

text \<open>
  \<^verbatim>\<open>PollutionModel.__init__\<close>.  The constructor of \<^verbatim>\<open>MultiGrid\<close> belongs to the Mesa
  library; whether it accepts the dimensions is the parameter \<open>grid_ok\<close>.  The
  constructor itself checks nothing: \<^verbatim>\<open>range\<close> of a non-positive number is empty.
  The random stream \<open>r\<close> and the summation \<open>s\<close> of the interpreter are the
  environment of the run.
\<close>

definition newModel ::
  "(int \<Rightarrow> int \<Rightarrow> bool) \<Rightarrow> int \<Rightarrow> int \<Rightarrow> int \<Rightarrow> int \<Rightarrow> int \<Rightarrow> (nat \<Rightarrow> nat) \<Rightarrow>
     (double list \<Rightarrow> double) \<Rightarrow> error + model" where
  "newModel grid_ok w h num_cars num_factories num_trees r s =
     (if \<not> grid_ok w h then Inl ValueError
      else
        and_then (for_each add_cell (all_positions w h) (empty_model w h r s)) (\<lambda>m1.
        and_then (for_each (\<lambda>i. add_agent CarAgent i) [0 .. num_cars - 1] m1) (\<lambda>m2.
        and_then (for_each (\<lambda>i. add_agent FactoryAgent (num_cars + i))
                    [0 .. num_factories - 1] m2) (\<lambda>m3.
        for_each (\<lambda>i. add_agent (\<lambda>p. TreeAgent p True) (num_cars + num_factories + i))
          [0 .. num_trees - 1] m3))))"

section \<open>Notions used to state the properties\<close>

text \<open>An operation that neither fails nor aborts.\<close>

definition succeeds :: "error + 'a \<Rightarrow> bool" where
  "succeeds r = (case r of Inl e \<Rightarrow> False | Inr x \<Rightarrow> True)"


text \<open>What no step of an agent changes: the dimensions, the random stream, the recorded
  samples, the step counter, the summation and the registered identifiers in their order.\<close>

definition same_frame :: "model \<Rightarrow> model \<Rightarrow> bool" where
  "same_frame m m' \<longleftrightarrow>
     width m' = width m \<and> height m' = height m \<and> rand m' = rand m \<and>
     samples m' = samples m \<and> steps m' = steps m \<and> float_sum m' = float_sum m \<and>
     map fst (agents m') = map fst (agents m)"

text \<open>
  Well-formed states.  The identifiers are distinct (\<^verbatim>\<open>schedule.add\<close> refuses a
  duplicate); a PollutionCell is the object created for its position and lies on the
  grid, and every other agent stands on the grid; and the only PollutionCell among the
  contents of a grid cell is the one created for that position.  The constructor
  establishes this and every step of an agent keeps it.
\<close>

definition is_cell :: "model \<Rightarrow> uid \<Rightarrow> bool" where
  "is_cell m v = (cell_pollution m v \<noteq> [])"

definition cells_at :: "model \<Rightarrow> pos \<Rightarrow> uid list" where
  "cells_at m p = filter (is_cell m) (get_cell_list_contents m p)"

fun agent_ok :: "model \<Rightarrow> uid \<times> agent \<Rightarrow> bool" where
  "agent_ok m (u, PollutionCell p c) = (u = CellId p \<and> \<not> out_of_bounds m p)"
| "agent_ok m (u, CarAgent p) = (\<not> out_of_bounds m p)"
| "agent_ok m (u, FactoryAgent p) = (\<not> out_of_bounds m p)"
| "agent_ok m (u, TreeAgent p alive) = (\<not> out_of_bounds m p)"

definition wf :: "model \<Rightarrow> bool" where
  "wf m \<longleftrightarrow>
     distinct (map fst (agents m)) \<and>
     list_all (agent_ok m) (agents m) \<and>
     list_all (\<lambda>p. cells_at m p = [CellId p]) (all_positions (width m) (height m))"

text \<open>An assignment to an object keeps its class, and the position of all but a car.\<close>

fun compatible :: "model \<Rightarrow> agent \<Rightarrow> agent \<Rightarrow> bool" where
  "compatible m (PollutionCell p c) (PollutionCell p' c') = (p' = p)"
| "compatible m (CarAgent p) (CarAgent p') = (\<not> out_of_bounds m p')"
| "compatible m (FactoryAgent p) (FactoryAgent p') = (p' = p)"
| "compatible m (TreeAgent p alive) (TreeAgent p' alive') = (p' = p)"
| "compatible m a b = False"

text \<open>The metrics in the words of the specification.\<close>

definition pollution_values :: "model \<Rightarrow> double list" where
  "pollution_values m =
     concat (map (\<lambda>(u, a). case a of PollutionCell p c \<Rightarrow> [c] | _ \<Rightarrow> []) (agents m))"

definition float_mean :: "double list \<Rightarrow> double" where
  "float_mean xs = (if xs = [] then Finite 0 else truediv (sum_left_to_right xs) (length xs))"

text \<open>The arithmetic mean of rational numbers.\<close>

definition mean :: "rat list \<Rightarrow> rat" where
  "mean xs = (if xs = [] then 0 else sum_list xs / of_nat (length xs))"

definition alive_trees :: "model \<Rightarrow> agent list" where
  "alive_trees m =
     filter (\<lambda>a. case a of TreeAgent p alive \<Rightarrow> alive | _ \<Rightarrow> False) (map snd (agents m))"

definition dead_trees :: "model \<Rightarrow> agent list" where
  "dead_trees m =
     filter (\<lambda>a. case a of TreeAgent p alive \<Rightarrow> \<not> alive | _ \<Rightarrow> False) (map snd (agents m))"

text \<open>The agents other than PollutionCells.\<close>

definition no_cell :: "agent \<Rightarrow> bool" where
  "no_cell b = (case b of PollutionCell p c \<Rightarrow> False | _ \<Rightarrow> True)"

text \<open>An object in a later state: its class is the same, all but a car stand where they
  stood, and a dead tree is still dead.  A population evolves when it holds the same
  objects, identifier by identifier in registration order, each in a later state.\<close>

fun same_object :: "agent \<Rightarrow> agent \<Rightarrow> bool" where
  "same_object (PollutionCell p c) (PollutionCell p' c') = (p' = p)"
| "same_object (CarAgent p) (CarAgent p') = True"
| "same_object (FactoryAgent p) (FactoryAgent p') = (p' = p)"
| "same_object (TreeAgent p alive) (TreeAgent p' alive') = (p' = p \<and> (alive \<or> \<not> alive'))"
| "same_object a b = False"

definition evolves :: "model \<Rightarrow> model \<Rightarrow> bool" where
  "evolves m m' =
     list_all2 (\<lambda>(k, b) (k', b'). k' = k \<and> same_object b b') (agents m) (agents m')"

text \<open>What stays true of a tree registered at \<open>p\<close>: it is a tree at \<open>p\<close>, dead if it was
  dead, and among the contents of its grid cell if it was (\<open>g\<close>).\<close>

definition tree_inv :: "uid \<Rightarrow> pos \<Rightarrow> bool \<Rightarrow> bool \<Rightarrow> model \<Rightarrow> bool" where
  "tree_inv u p a g t \<longleftrightarrow>
     (\<exists>a'. map_of (agents t) u = Some (TreeAgent p a') \<and> (\<not> a \<longrightarrow> \<not> a')) \<and>
     (g \<longrightarrow> u \<in> set (grid t p))"



text \<open>A state in the middle of a run, used to instantiate the theorems: a 2x1 grid with
  a car, a factory, a living and a dead tree.\<close>

definition example_model :: model where
  "example_model =
     \<lparr>width = 2, height = 1,
      agents = [(CellId (0, 0), PollutionCell (0, 0) (Finite 50)), (CellId (1, 0), PollutionCell (1, 0) (Finite 0)),
                (NumId 0, CarAgent (1, 0)), (NumId 1, FactoryAgent (0, 0)),
                (NumId 2, TreeAgent (0, 0) True), (NumId 3, TreeAgent (1, 0) False)],
      grid = (\<lambda>p. if p = (0, 0) then [CellId (0, 0), NumId 1, NumId 2]
                  else if p = (1, 0) then [CellId (1, 0), NumId 3, NumId 0] else []),
      rand = (\<lambda>i. 0), draws = 5, steps = 3, samples = [],
      float_sum = sum_left_to_right\<rparr>"

text \<open>A 3x1 grid without cars, factories and trees, whose cells hold 10, 0 and 0.\<close>

definition three_cells_model :: model where
  "three_cells_model =
     \<lparr>width = 3, height = 1,
      agents = [(CellId (0, 0), PollutionCell (0, 0) (Finite 10)),
                (CellId (1, 0), PollutionCell (1, 0) (Finite 0)),
                (CellId (2, 0), PollutionCell (2, 0) (Finite 0))],
      grid = (\<lambda>p. if p = (0, 0) \<or> p = (1, 0) \<or> p = (2, 0) then [CellId p] else []),
      rand = (\<lambda>i. 0), draws = 0, steps = 0, samples = [],
      float_sum = sum_left_to_right\<rparr>"



section \<open>Basic facts\<close>

lemma and_then_simps [simp]:
  "and_then (Inl e) f = Inl e"
  "and_then (Inr x) f = f x"
  by (simp_all add: and_then_def)

lemma and_then_eq_Inr: "and_then r f = Inr y \<longleftrightarrow> (\<exists>x. r = Inr x \<and> f x = Inr y)"
  by (cases r) simp_all

lemma for_each_append: "for_each f (xs @ ys) s = and_then (for_each f xs s) (for_each f ys)"
proof (induction xs arbitrary: s)
  case Nil
  show ?case by simp
next
  case (Cons x xs)
  show ?case by (cases "f x s") (simp_all add: Cons.IH)
qed

lemma for_each_invariant:
  assumes "for_each f xs s = Inr s'" and "P s"
    and "\<And>x t t'. x \<in> set xs \<Longrightarrow> P t \<Longrightarrow> f x t = Inr t' \<Longrightarrow> P t'"
  shows "P s'"
  using assms
proof (induction xs arbitrary: s)
  case Nil
  then show ?case by simp
next
  case (Cons x xs)
  from Cons.prems(1) obtain t where t: "f x s = Inr t" and r: "for_each f xs t = Inr s'"
    by (auto simp: and_then_eq_Inr)
  have "P t" using Cons.prems(2,3) t by (meson list.set_intros(1))
  with r Cons.IH Cons.prems(3) show ?case by (meson list.set_intros(2))
qed

lemma set_agent_fields [simp]:
  "width (set_agent u a m) = width m"
  "height (set_agent u a m) = height m"
  "grid (set_agent u a m) = grid m"
  "rand (set_agent u a m) = rand m"
  "draws (set_agent u a m) = draws m"
  "steps (set_agent u a m) = steps m"
  "samples (set_agent u a m) = samples m"
  "float_sum (set_agent u a m) = float_sum m"
  by (simp_all add: set_agent_def)

lemma set_agent_keys [simp]: "map fst (agents (set_agent u a m)) = map fst (agents m)"
  by (simp add: set_agent_def comp_def case_prod_unfold)

lemma map_of_set_agent:
  "map_of (agents (set_agent u a m)) k =
     (if k = u then map_option (\<lambda>b. a) (map_of (agents m) u) else map_of (agents m) k)"
proof -
  have "map_of (map (\<lambda>(k, b). if k = u then (k, a) else (k, b)) al) k =
          (if k = u then map_option (\<lambda>b. a) (map_of al u) else map_of al k)" for al
    by (induction al) auto
  then show ?thesis by (simp add: set_agent_def)
qed

lemma same_frame_refl [simp]: "same_frame m m"
  by (simp add: same_frame_def)

lemma same_frame_trans: "same_frame m m1 \<Longrightarrow> same_frame m1 m2 \<Longrightarrow> same_frame m m2"
  by (simp add: same_frame_def)

lemma same_frame_set_agent [simp]: "same_frame m (set_agent u a m)"
  by (simp add: same_frame_def)

lemma same_frame_pollution_update [simp]: "same_frame m (pollution_update f v m)"
  by (simp add: pollution_update_def split: option.split agent.split)

lemma same_frame_fold_pollution_update [simp]: "same_frame m (fold (pollution_update f) vs m)"
proof (induction vs arbitrary: m)
  case Nil
  show ?case by simp
next
  case (Cons v vs)
  show ?case
    using same_frame_trans [OF same_frame_pollution_update Cons.IH] by simp
qed

lemma same_frame_place_agent [simp]: "same_frame m (place_agent u p m)"
  by (simp add: same_frame_def place_agent_def)

lemma same_frame_remove_agent [simp]: "same_frame m (remove_agent u p m)"
  by (simp add: same_frame_def remove_agent_def)

lemma same_frame_move_agent [simp]: "same_frame m (move_agent u p q m)"
  by (simp add: same_frame_def move_agent_def place_agent_def remove_agent_def)

lemma same_frame_PollutionCell_step [simp]: "same_frame m (PollutionCell_step u p c m)"
  by (simp add: PollutionCell_step_def Let_def)

lemma same_frame_PollutionCell_advance [simp]: "same_frame m (PollutionCell_advance u p c m)"
  by (simp add: PollutionCell_advance_def)

lemma same_frame_FactoryAgent_step [simp]: "same_frame m (FactoryAgent_step u p m)"
  by (simp add: FactoryAgent_step_def)

lemma same_frame_TreeAgent_step [simp]: "same_frame m (TreeAgent_step u p alive m)"
proof -
  have "same_frame m (set_agent u a (fold (pollution_update f) vs m))" for a f vs
    using same_frame_trans [OF same_frame_fold_pollution_update same_frame_set_agent] .
  then show ?thesis by (simp add: TreeAgent_step_def Let_def)
qed

lemma choice_Inr:
  "choice xs m = Inr (x, m1) \<Longrightarrow>
     xs \<noteq> [] \<and> x = xs ! (rand m (draws m) mod length xs) \<and> m1 = m\<lparr>draws := Suc (draws m)\<rparr>"
  by (auto simp: choice_def split: if_splits)

lemma same_frame_draws [simp]: "same_frame m (m\<lparr>draws := d\<rparr>)"
  by (simp add: same_frame_def)

lemma same_frame_CarAgent_step: "CarAgent_step u p m = Inr m' \<Longrightarrow> same_frame m m'"
proof -
  assume a: "CarAgent_step u p m = Inr m'"
  then obtain q m1 where c: "choice (get_neighborhood m p) m = Inr (q, m1)"
    and m': "m' = fold (pollution_update (\<lambda>c. fadd c (Finite 10))) (get_cell_list_contents (move_agent u p q m1) q)
                    (move_agent u p q m1)"
    by (auto simp: CarAgent_step_def Let_def split: sum.splits)
  from c have "m1 = m\<lparr>draws := Suc (draws m)\<rparr>" by (simp add: choice_Inr)
  then have "same_frame m m1" by simp
  then have "same_frame m (move_agent u p q m1)"
    using same_frame_trans same_frame_move_agent by blast
  then show ?thesis
    unfolding m' using same_frame_trans same_frame_fold_pollution_update by blast
qed

lemma same_frame_agent_step: "agent_step u m = Inr m' \<Longrightarrow> same_frame m m'"
  by (auto simp: agent_step_def same_frame_CarAgent_step split: option.splits agent.splits)

lemma same_frame_agent_advance: "agent_advance u m = Inr m' \<Longrightarrow> same_frame m m'"
  by (auto simp: agent_advance_def split: option.splits agent.splits)

lemma same_frame_for_each:
  assumes "for_each f xs m = Inr m'" and "\<And>x t t'. f x t = Inr t' \<Longrightarrow> same_frame t t'"
  shows "same_frame m m'"
  using assms(1)
proof (rule for_each_invariant [where P = "same_frame m"])
  show "same_frame m m" by simp
next
  fix x t t' assume "same_frame m t" "f x t = Inr t'"
  then show "same_frame m t'" using assms(2) same_frame_trans by blast
qed

lemma schedule_step_Inr:
  "schedule_step m = Inr m' \<Longrightarrow>
     \<exists>m1 m2. for_each agent_step (map fst (agents m)) m = Inr m1 \<and>
             for_each agent_advance (map fst (agents m1)) m1 = Inr m2 \<and>
             m' = m2\<lparr>steps := Suc (steps m2)\<rparr>"
  by (auto simp: schedule_step_def and_then_eq_Inr)

lemma schedule_step_frame:
  assumes "schedule_step m = Inr m'"
  shows "width m' = width m" "height m' = height m" "rand m' = rand m"
    "samples m' = samples m" "steps m' = Suc (steps m)"
    "map fst (agents m') = map fst (agents m)"
proof -
  from schedule_step_Inr [OF assms] obtain m1 m2 where
    1: "for_each agent_step (map fst (agents m)) m = Inr m1" and
    2: "for_each agent_advance (map fst (agents m1)) m1 = Inr m2" and
    3: "m' = m2\<lparr>steps := Suc (steps m2)\<rparr>" by blast
  have "same_frame m m1" using 1 same_frame_agent_step by (rule same_frame_for_each)
  moreover have "same_frame m1 m2" using 2 same_frame_agent_advance by (rule same_frame_for_each)
  ultimately have "same_frame m m2" by (rule same_frame_trans)
  then show "width m' = width m" "height m' = height m" "rand m' = rand m"
    "samples m' = samples m" "steps m' = Suc (steps m)"
    "map fst (agents m') = map fst (agents m)"
    by (simp_all add: 3 same_frame_def)
qed

lemma succeedsE: "succeeds r \<Longrightarrow> (\<And>x. r = Inr x \<Longrightarrow> thesis) \<Longrightarrow> thesis"
  by (cases r) (simp_all add: succeeds_def)

section \<open>Well-formed states\<close>

lemma in_all_positions: "(x, y) \<in> set (all_positions w h) \<longleftrightarrow> 0 \<le> x \<and> x < w \<and> 0 \<le> y \<and> y < h"
  by (force simp: all_positions_def)

lemma in_all_positions_bounds: "p \<in> set (all_positions (width m) (height m)) \<longleftrightarrow> \<not> out_of_bounds m p"
  by (cases p) (auto simp: in_all_positions out_of_bounds_def)

lemma distinct_product_list:
  "distinct xs \<Longrightarrow> distinct ys \<Longrightarrow> distinct (concat (map (\<lambda>x. map (\<lambda>y. (x, y)) ys) xs))"
  by (induction xs) (auto simp: distinct_map inj_on_def)

lemma distinct_all_positions: "distinct (all_positions w h)"
  unfolding all_positions_def by (rule distinct_product_list) simp_all

lemma is_cell_iff: "is_cell m v \<longleftrightarrow> (\<exists>p c. map_of (agents m) v = Some (PollutionCell p c))"
  by (auto simp: is_cell_def cell_pollution_def split: option.splits agent.splits)

lemma wf_distinct: "wf m \<Longrightarrow> distinct (map fst (agents m))"
  by (simp add: wf_def)

lemma wf_agent_ok: "wf m \<Longrightarrow> (u, a) \<in> set (agents m) \<Longrightarrow> agent_ok m (u, a)"
  by (auto simp: wf_def list_all_iff)

lemma wf_lookup_ok: "wf m \<Longrightarrow> map_of (agents m) u = Some a \<Longrightarrow> agent_ok m (u, a)"
  by (auto dest: map_of_SomeD wf_agent_ok)

lemma wf_cells_at: "wf m \<Longrightarrow> \<not> out_of_bounds m p \<Longrightarrow> cells_at m p = [CellId p]"
  by (auto simp: wf_def list_all_iff in_all_positions_bounds)


lemma out_of_bounds_cong:
  "width m' = width m \<Longrightarrow> height m' = height m \<Longrightarrow> out_of_bounds m' p = out_of_bounds m p"
  by (simp add: out_of_bounds_def)

lemma agent_ok_cong:
  "width m' = width m \<Longrightarrow> height m' = height m \<Longrightarrow> agent_ok m' x = agent_ok m x"
  by (cases "(m, x)" rule: agent_ok.cases) (simp_all add: out_of_bounds_cong [of m' m])

lemma is_cell_set_agent:
  assumes "map_of (agents m) u = Some b" "compatible m b a"
  shows "is_cell (set_agent u a m) v = is_cell m v"
  using assms
  by (cases "(m, b, a)" rule: compatible.cases) (auto simp: is_cell_iff map_of_set_agent)

lemma cells_at_set_agent:
  assumes "map_of (agents m) u = Some b" "compatible m b a"
  shows "cells_at (set_agent u a m) p = cells_at m p"
  by (simp add: cells_at_def get_cell_list_contents_def is_cell_set_agent [OF assms] cong: filter_cong)

lemma agent_ok_compatible: "agent_ok m (u, b) \<Longrightarrow> compatible m b a \<Longrightarrow> agent_ok m (u, a)"
  by (cases "(m, b, a)" rule: compatible.cases) simp_all

lemma wf_set_agent:
  assumes "wf m" "map_of (agents m) u = Some b" "compatible m b a"
  shows "wf (set_agent u a m)"
proof -
  have ok: "agent_ok m (u, a)"
    using wf_lookup_ok [OF assms(1,2)] assms(3) by (rule agent_ok_compatible)
  have "agent_ok m x" if "x \<in> set (agents (set_agent u a m))" for x
  proof -
    from that obtain k b' where kb: "(k, b') \<in> set (agents m)"
      and x: "x = (if k = u then (k, a) else (k, b'))"
      by (auto simp: set_agent_def)
    show ?thesis using ok wf_agent_ok [OF assms(1) kb] by (simp add: x)
  qed
  then have 2: "list_all (agent_ok (set_agent u a m)) (agents (set_agent u a m))"
    by (simp add: list_all_iff agent_ok_cong [of "set_agent u a m" m])
  show ?thesis
    using assms(1) 2 by (simp add: wf_def cells_at_set_agent [OF assms(2,3)])
qed

lemma wf_update_other [simp]:
  "wf (m\<lparr>draws := d\<rparr>) = wf m"
  "wf (m\<lparr>steps := k\<rparr>) = wf m"
  "wf (m\<lparr>samples := s\<rparr>) = wf m"
  "wf (m\<lparr>rand := r\<rparr>) = wf m"
proof -
  have "wf m' = wf m"
    if "width m' = width m" "height m' = height m" "agents m' = agents m" "grid m' = grid m" for m'
  proof -
    have c: "is_cell m' = is_cell m" by (simp add: is_cell_def cell_pollution_def that fun_eq_iff)
    have "cells_at m' = cells_at m"
      by (simp add: cells_at_def get_cell_list_contents_def that c fun_eq_iff)
    moreover have "agent_ok m' = agent_ok m" using agent_ok_cong [OF that(1,2)] by blast
    ultimately show ?thesis by (simp add: wf_def that)
  qed
  note r = this
  show "wf (m\<lparr>draws := d\<rparr>) = wf m" by (rule r) simp_all
  show "wf (m\<lparr>steps := k\<rparr>) = wf m" by (rule r) simp_all
  show "wf (m\<lparr>samples := s\<rparr>) = wf m" by (rule r) simp_all
  show "wf (m\<lparr>rand := r\<rparr>) = wf m" by (rule r) simp_all
qed

lemma filter_remove1_other: "\<not> P u \<Longrightarrow> filter P (remove1 u xs) = filter P xs"
  by (induction xs) auto

lemma wf_relocate:
  assumes "wf m" "\<not> is_cell m u"
  shows "wf (place_agent u q (remove_agent u p m))"
proof -
  let ?m = "place_agent u q (remove_agent u p m)"
  have a: "agents ?m = agents m" "width ?m = width m" "height ?m = height m"
    by (simp_all add: place_agent_def remove_agent_def)
  have c: "is_cell ?m = is_cell m" by (simp add: is_cell_def cell_pollution_def a fun_eq_iff)
  have g: "grid ?m r =
      (if r = q then (if q = p then remove1 u (grid m p) else grid m q) @ [u]
       else if r = p then remove1 u (grid m p) else grid m r)" for r
    by (simp add: place_agent_def remove_agent_def)
  have "cells_at ?m r = cells_at m r" for r
    unfolding cells_at_def get_cell_list_contents_def c g
    using assms(2) by (simp add: filter_remove1_other)
  moreover have "agent_ok ?m = agent_ok m" using agent_ok_cong [OF a(2,3)] by blast
  ultimately show ?thesis using assms(1) by (simp add: wf_def a)
qed

lemma wf_move_agent:
  assumes "wf m" "map_of (agents m) u = Some (CarAgent p)" "\<not> out_of_bounds m q"
  shows "wf (move_agent u p q m)"
proof -
  let ?m = "place_agent u q (remove_agent u p m)"
  have a: "agents ?m = agents m" "width ?m = width m" "height ?m = height m"
    by (simp_all add: place_agent_def remove_agent_def)
  have "\<not> is_cell m u" using assms(2) by (simp add: is_cell_iff)
  then have "wf ?m" using assms(1) by (simp add: wf_relocate)
  moreover have "map_of (agents ?m) u = Some (CarAgent p)" using assms(2) by (simp add: a)
  moreover have "compatible ?m (CarAgent p) (CarAgent q)"
    using assms(3) by (simp add: out_of_bounds_cong [OF a(2,3)])
  ultimately show ?thesis unfolding move_agent_def by (rule wf_set_agent)
qed

lemma pollution_update_cell:
  "map_of (agents m) v = Some (PollutionCell p c) \<Longrightarrow>
     pollution_update f v m = set_agent v (PollutionCell p (f c)) m"
  by (simp add: pollution_update_def)

lemma pollution_update_other: "\<not> is_cell m v \<Longrightarrow> pollution_update f v m = m"
  by (auto simp: pollution_update_def is_cell_iff split: option.splits agent.splits)

lemma grid_pollution_update [simp]: "grid (pollution_update f v m) = grid m"
  by (simp add: pollution_update_def split: option.splits agent.splits)

lemma is_cell_pollution_update [simp]: "is_cell (pollution_update f v m) = is_cell m"
proof (cases "is_cell m v")
  case True
  then obtain p c where l: "map_of (agents m) v = Some (PollutionCell p c)"
    by (auto simp: is_cell_iff)
  have "compatible m (PollutionCell p c) (PollutionCell p (f c))" by simp
  from is_cell_set_agent [OF l this] show ?thesis
    by (simp add: pollution_update_cell [OF l] fun_eq_iff)
next
  case False
  then show ?thesis by (simp add: pollution_update_other)
qed

lemma wf_pollution_update: "wf m \<Longrightarrow> wf (pollution_update f v m)"
proof (cases "is_cell m v")
  case True
  assume w: "wf m"
  from True obtain p c where l: "map_of (agents m) v = Some (PollutionCell p c)"
    by (auto simp: is_cell_iff)
  have "compatible m (PollutionCell p c) (PollutionCell p (f c))" by simp
  from wf_set_agent [OF w l this] show ?thesis by (simp add: pollution_update_cell [OF l])
next
  case False
  then show "wf m \<Longrightarrow> wf (pollution_update f v m)" by (simp add: pollution_update_other)
qed

lemma fold_pollution_update_cells:
  "fold (pollution_update f) vs m = fold (pollution_update f) (filter (is_cell m) vs) m"
proof (induction vs arbitrary: m)
  case Nil
  show ?case by simp
next
  case (Cons v vs)
  show ?case
  proof (cases "is_cell m v")
    case True
    then show ?thesis using Cons.IH [of "pollution_update f v m"] by simp
  next
    case False
    then show ?thesis using Cons.IH [of m] by (simp add: pollution_update_other)
  qed
qed

lemma fold_pollution_update_wf:
  assumes "wf m" "\<not> out_of_bounds m p"
  shows "fold (pollution_update f) (get_cell_list_contents m p) m = pollution_update f (CellId p) m"
proof -
  have "filter (is_cell m) (get_cell_list_contents m p) = [CellId p]"
    using wf_cells_at [OF assms] by (simp add: cells_at_def)
  then show ?thesis
    using fold_pollution_update_cells [of f "get_cell_list_contents m p" m] by simp
qed

section \<open>The Moore neighbourhood\<close>

lemma set_product_list:
  "(a, b) \<in> set (concat (map (\<lambda>x. map (\<lambda>y. (x, y)) ys) xs)) \<longleftrightarrow> a \<in> set xs \<and> b \<in> set ys"
  by (induction xs) auto

lemma clipped_range:
  "(a::int) \<in> set [max 0 (x - 1) .. min w (x + 2) - 1] \<longleftrightarrow> 0 \<le> a \<and> a < w \<and> \<bar>a - x\<bar> \<le> 1"
  unfolding set_upto atLeastAtMost_iff by linarith

lemma get_neighborhood_set:
  "(a, b) \<in> set (get_neighborhood m (x, y)) \<longleftrightarrow>
     \<not> out_of_bounds m (a, b) \<and> \<bar>a - x\<bar> \<le> 1 \<and> \<bar>b - y\<bar> \<le> 1 \<and> (a, b) \<noteq> (x, y)"
  unfolding get_neighborhood_def out_of_bounds_def prod.case set_filter mem_Collect_eq
    set_product_list clipped_range
  by linarith

lemma get_neighborhood_in_bounds:
  "q \<in> set (get_neighborhood m p) \<Longrightarrow> \<not> out_of_bounds m q"
  by (cases p, cases q) (simp add: get_neighborhood_set)


section \<open>Every step keeps the state well-formed\<close>

lemma wf_fold_pollution_update: "wf m \<Longrightarrow> wf (fold (pollution_update f) vs m)"
  by (induction vs arbitrary: m) (simp_all add: wf_pollution_update)

lemma wf_PollutionCell_step:
  "wf m \<Longrightarrow> map_of (agents m) u = Some (PollutionCell p c) \<Longrightarrow> wf (PollutionCell_step u p c m)"
  unfolding PollutionCell_step_def Let_def
  by (rule wf_set_agent [where b = "PollutionCell p c"]) simp_all

lemma wf_PollutionCell_advance:
  "wf m \<Longrightarrow> map_of (agents m) u = Some (PollutionCell p c) \<Longrightarrow> wf (PollutionCell_advance u p c m)"
  unfolding PollutionCell_advance_def
  by (rule wf_set_agent [where b = "PollutionCell p c"]) simp_all

lemma wf_FactoryAgent_step: "wf m \<Longrightarrow> wf (FactoryAgent_step u p m)"
  by (simp add: FactoryAgent_step_def wf_fold_pollution_update)

text \<open>Objects that are no PollutionCell are untouched by the pollution updates.\<close>

lemma lookup_pollution_update_other:
  "map_of (agents m) u = Some b \<Longrightarrow> \<not> is_cell m u \<Longrightarrow>
     map_of (agents (pollution_update f v m)) u = Some b"
  by (auto simp: pollution_update_def map_of_set_agent is_cell_iff split: option.splits agent.splits)

lemma lookup_fold_pollution_update_other:
  "map_of (agents m) u = Some b \<Longrightarrow> \<not> is_cell m u \<Longrightarrow>
     map_of (agents (fold (pollution_update f) vs m)) u = Some b"
proof (induction vs arbitrary: m)
  case Nil
  then show ?case by simp
next
  case (Cons v vs)
  have "map_of (agents (pollution_update f v m)) u = Some b"
    using Cons.prems by (rule lookup_pollution_update_other)
  moreover have "\<not> is_cell (pollution_update f v m) u" using Cons.prems(2) by simp
  ultimately show ?case using Cons.IH by simp
qed

lemma wf_TreeAgent_step:
  assumes "wf m" "map_of (agents m) u = Some (TreeAgent p alive)"
  shows "wf (TreeAgent_step u p alive m)"
proof (cases alive)
  case False
  then show ?thesis using assms(1) by (simp add: TreeAgent_step_def)
next
  case True
  let ?m1 = "fold (pollution_update (\<lambda>c. fmul c float_0_7)) (get_cell_list_contents m p) m"
  have w1: "wf ?m1" using assms(1) by (rule wf_fold_pollution_update)
  have "\<not> is_cell m u" using assms(2) by (simp add: is_cell_iff)
  then have l1: "map_of (agents ?m1) u = Some (TreeAgent p alive)"
    using assms(2) by (simp add: lookup_fold_pollution_update_other)
  have "wf (set_agent u (TreeAgent p False) ?m1)"
    using w1 l1 by (rule wf_set_agent) simp
  then show ?thesis using w1 True by (simp add: TreeAgent_step_def Let_def)
qed

lemma wf_CarAgent_step:
  assumes "wf m" "map_of (agents m) u = Some (CarAgent p)" "CarAgent_step u p m = Inr m'"
  shows "wf m'"
proof -
  from assms(3) obtain q m1 where c: "choice (get_neighborhood m p) m = Inr (q, m1)"
    and m': "m' = fold (pollution_update (\<lambda>c. fadd c (Finite 10))) (get_cell_list_contents (move_agent u p q m1) q)
                    (move_agent u p q m1)"
    by (auto simp: CarAgent_step_def Let_def split: sum.splits)
  from choice_Inr [OF c] have ne: "get_neighborhood m p \<noteq> []"
    and q: "q = get_neighborhood m p ! (rand m (draws m) mod length (get_neighborhood m p))"
    and m1: "m1 = m\<lparr>draws := Suc (draws m)\<rparr>" by simp_all
  have "q \<in> set (get_neighborhood m p)" using ne q by simp
  then have "\<not> out_of_bounds m q" by (rule get_neighborhood_in_bounds)
  then have b: "\<not> out_of_bounds m1 q" by (simp add: m1 out_of_bounds_def)
  have "wf m1" using assms(1) by (simp add: m1)
  moreover have "map_of (agents m1) u = Some (CarAgent p)" using assms(2) by (simp add: m1)
  ultimately have "wf (move_agent u p q m1)" using b by (rule wf_move_agent)
  then show ?thesis unfolding m' by (rule wf_fold_pollution_update)
qed

lemma wf_agent_step: "wf m \<Longrightarrow> agent_step u m = Inr m' \<Longrightarrow> wf m'"
  by (auto simp: agent_step_def wf_PollutionCell_step wf_FactoryAgent_step wf_TreeAgent_step
      wf_CarAgent_step split: option.splits agent.splits)

lemma wf_agent_advance: "wf m \<Longrightarrow> agent_advance u m = Inr m' \<Longrightarrow> wf m'"
  by (auto simp: agent_advance_def wf_PollutionCell_advance split: option.splits agent.splits)

lemma wf_schedule_step:
  assumes "wf m" "schedule_step m = Inr m'"
  shows "wf m'"
proof -
  from schedule_step_Inr [OF assms(2)] obtain m1 m2 where
    1: "for_each agent_step (map fst (agents m)) m = Inr m1" and
    2: "for_each agent_advance (map fst (agents m1)) m1 = Inr m2" and
    3: "m' = m2\<lparr>steps := Suc (steps m2)\<rparr>" by blast
  have w1: "wf m1" using 1 assms(1) wf_agent_step by (rule for_each_invariant)
  have "wf m2" using 2 w1 wf_agent_advance by (rule for_each_invariant)
  then show ?thesis by (simp add: 3)
qed

lemma wf_collect [simp]: "wf (collect m) = wf m"
  by (simp add: collect_def)

lemma wf_step: "wf m \<Longrightarrow> step m = Inr m' \<Longrightarrow> wf m'"
  unfolding step_def using wf_schedule_step [of "collect m" m'] by simp

lemma wf_run: "wf m \<Longrightarrow> run n m = Inr m' \<Longrightarrow> wf m'"
proof (induction n arbitrary: m)
  case 0
  then show ?case by simp
next
  case (Suc n)
  from Suc.prems(2) obtain m1 where "step m = Inr m1" "run n m1 = Inr m'"
    by (auto simp: and_then_eq_Inr)
  then show ?case using Suc.IH Suc.prems(1) wf_step by blast
qed

section \<open>What the steps leave unchanged\<close>

lemma no_cell_simps [simp]:
  "\<not> no_cell (PollutionCell p c)" "no_cell (CarAgent p)" "no_cell (FactoryAgent p)"
  "no_cell (TreeAgent p alive)"
  by (simp_all add: no_cell_def)

lemma no_cell_not_is_cell: "map_of (agents m) u = Some b \<Longrightarrow> no_cell b \<Longrightarrow> \<not> is_cell m u"
  by (auto simp: is_cell_iff no_cell_def)

lemma keep_fold_pollution_update:
  "map_of (agents m) u = Some b \<Longrightarrow> no_cell b \<Longrightarrow>
     map_of (agents (fold (pollution_update f) vs m)) u = Some b"
  by (simp add: lookup_fold_pollution_update_other no_cell_not_is_cell)

lemma keep_set_agent:
  "map_of (agents m) u = Some b \<Longrightarrow> v \<noteq> u \<Longrightarrow> map_of (agents (set_agent v a m)) u = Some b"
  by (simp add: map_of_set_agent)

lemma agents_move_agent:
  "agents (move_agent v p q m) = agents (set_agent v (CarAgent q) m)"
  by (simp add: move_agent_def set_agent_def place_agent_def remove_agent_def)

lemma keep_CarAgent_step:
  assumes "CarAgent_step v p m = Inr m'" "map_of (agents m) u = Some b" "no_cell b" "v \<noteq> u"
  shows "map_of (agents m') u = Some b"
proof -
  from assms(1) obtain q m1 where c: "choice (get_neighborhood m p) m = Inr (q, m1)"
    and m': "m' = fold (pollution_update (\<lambda>c. fadd c (Finite 10))) (get_cell_list_contents (move_agent v p q m1) q)
                    (move_agent v p q m1)"
    by (auto simp: CarAgent_step_def Let_def split: sum.splits)
  from choice_Inr [OF c] have m1: "m1 = m\<lparr>draws := Suc (draws m)\<rparr>" by simp
  have "map_of (agents m1) u = Some b" using assms(2) by (simp add: m1)
  then have "map_of (agents (move_agent v p q m1)) u = Some b"
    using assms(4) by (simp add: agents_move_agent keep_set_agent)
  then show ?thesis unfolding m' using assms(3) by (rule keep_fold_pollution_update)
qed

lemma keep_TreeAgent_step:
  assumes "map_of (agents m) u = Some b" "no_cell b" "v \<noteq> u"
  shows "map_of (agents (TreeAgent_step v p alive m)) u = Some b"
proof -
  let ?m1 = "fold (pollution_update (\<lambda>c. fmul c float_0_7)) (get_cell_list_contents m p) m"
  have "map_of (agents ?m1) u = Some b" using assms(1,2) by (rule keep_fold_pollution_update)
  then show ?thesis
    using assms by (simp add: TreeAgent_step_def Let_def keep_set_agent)
qed

lemma keep_agent_step:
  assumes "agent_step v m = Inr m'" "map_of (agents m) u = Some b" "no_cell b" "v \<noteq> u"
  shows "map_of (agents m') u = Some b"
proof (cases "map_of (agents m) v")
  case None
  then show ?thesis using assms(1) by (simp add: agent_step_def)
next
  case (Some a)
  show ?thesis
  proof (cases a)
    case (PollutionCell p c)
    then show ?thesis
      using assms Some by (auto simp: agent_step_def PollutionCell_step_def Let_def keep_set_agent)
  next
    case (CarAgent p)
    then show ?thesis
      using assms Some keep_CarAgent_step [of v p m m' u b] by (simp add: agent_step_def)
  next
    case (FactoryAgent p)
    then show ?thesis
      using assms Some
      by (auto simp: agent_step_def FactoryAgent_step_def keep_fold_pollution_update)
  next
    case (TreeAgent p alive)
    then show ?thesis
      using assms Some by (auto simp: agent_step_def keep_TreeAgent_step)
  qed
qed

lemma keep_agent_advance:
  assumes "agent_advance v m = Inr m'" "map_of (agents m) u = Some b" "no_cell b"
  shows "map_of (agents m') u = Some b"
proof (cases "v = u")
  case True
  then show ?thesis
    using assms by (auto simp: agent_advance_def no_cell_def split: agent.splits)
next
  case False
  then show ?thesis
    using assms
    by (auto simp: agent_advance_def PollutionCell_advance_def keep_set_agent
        split: option.splits agent.splits)
qed


lemma keep_for_each_step:
  assumes "for_each agent_step vs m = Inr m'" "map_of (agents m) u = Some b"
    and "\<And>t t'. map_of (agents t) u = Some b \<Longrightarrow> agent_step u t = Inr t' \<Longrightarrow>
             map_of (agents t') u = Some b"
    and "no_cell b"
  shows "map_of (agents m') u = Some b"
  using assms(1,2)
proof (rule for_each_invariant)
  fix v t t' assume "map_of (agents t) u = Some b" "agent_step v t = Inr t'"
  then show "map_of (agents t') u = Some b"
    using assms(3,4) keep_agent_step by (cases "v = u") blast+
qed

lemma keep_for_each_advance:
  assumes "for_each agent_advance vs m = Inr m'" "map_of (agents m) u = Some b" "no_cell b"
  shows "map_of (agents m') u = Some b"
  using assms(1,2)
proof (rule for_each_invariant)
  fix v t t' assume "map_of (agents t) u = Some b" "agent_advance v t = Inr t'"
  then show "map_of (agents t') u = Some b" using assms(3) keep_agent_advance by blast
qed

lemma keep_step:
  assumes "step m = Inr m'" "map_of (agents m) u = Some b"
    and "\<And>t t'. map_of (agents t) u = Some b \<Longrightarrow> agent_step u t = Inr t' \<Longrightarrow>
             map_of (agents t') u = Some b"
    and "no_cell b"
  shows "map_of (agents m') u = Some b"
proof -
  from assms(1) have "schedule_step (collect m) = Inr m'" by (simp add: step_def)
  from schedule_step_Inr [OF this] obtain m1 m2 where
    1: "for_each agent_step (map fst (agents (collect m))) (collect m) = Inr m1" and
    2: "for_each agent_advance (map fst (agents m1)) m1 = Inr m2" and
    3: "m' = m2\<lparr>steps := Suc (steps m2)\<rparr>" by blast
  have "map_of (agents (collect m)) u = Some b" using assms(2) by (simp add: collect_def)
  with 1 have "map_of (agents m1) u = Some b" using assms(3,4) by (rule keep_for_each_step)
  with 2 have "map_of (agents m2) u = Some b" using assms(4) by (rule keep_for_each_advance)
  then show ?thesis by (simp add: 3)
qed

lemma keep_run:
  assumes "run n m = Inr m'" "map_of (agents m) u = Some b"
    and "\<And>t t'. map_of (agents t) u = Some b \<Longrightarrow> agent_step u t = Inr t' \<Longrightarrow>
             map_of (agents t') u = Some b"
    and "no_cell b"
  shows "map_of (agents m') u = Some b"
  using assms(1,2)
proof (induction n arbitrary: m)
  case 0
  then show ?case by simp
next
  case (Suc n)
  from Suc.prems(1) obtain m1 where s: "step m = Inr m1" and r: "run n m1 = Inr m'"
    by (auto simp: and_then_eq_Inr)
  have "map_of (agents m1) u = Some b" using s Suc.prems(2) assms(3,4) by (rule keep_step)
  with r show ?case by (rule Suc.IH)
qed

section \<open>The population only evolves\<close>

lemma same_object_refl [simp]: "same_object a a"
  by (cases a) simp_all

lemma same_object_trans: "same_object a b \<Longrightarrow> same_object b c \<Longrightarrow> same_object a c"
  by (cases a; cases b; cases c) auto

lemma evolves_refl [simp]: "evolves m m"
  by (auto simp: evolves_def list_all2_same)

lemma evolves_agents_eq: "agents m' = agents m \<Longrightarrow> evolves m m'"
  by (auto simp: evolves_def list_all2_same)

lemma evolves_trans: "evolves m m1 \<Longrightarrow> evolves m1 m2 \<Longrightarrow> evolves m m2"
proof -
  assume a: "evolves m m1" "evolves m1 m2"
  let ?R = "\<lambda>(k, b) (k', b'). k' = k \<and> same_object b b'"
  have "?R x y \<Longrightarrow> ?R y z \<Longrightarrow> ?R x z" for x y z :: "uid \<times> agent"
    by (auto intro: same_object_trans)
  then have "list_all2 ?R (agents m) (agents m2)"
    using a unfolding evolves_def by (rule list_all2_trans)
  then show ?thesis by (simp add: evolves_def)
qed

lemma evolves_keys: "evolves m m' \<Longrightarrow> map fst (agents m') = map fst (agents m)"
  unfolding evolves_def by (induction rule: list_all2_induct) auto

lemma evolves_set_agent:
  assumes "distinct (map fst (agents m))" "map_of (agents m) v = Some b" "same_object b a"
  shows "evolves m (set_agent v a m)"
proof -
  have "b' = b" if "(v, b') \<in> set (agents m)" for b'
    using assms(1,2) that by (auto simp: map_of_eq_Some_iff dest: eq_key_imp_eq_value)
  then show ?thesis
    using assms(3)
    by (auto simp: evolves_def set_agent_def list_all2_map2 list_all2_same split: if_splits)
qed

lemma evolves_lookup:
  "evolves m m' \<Longrightarrow> map_of (agents m) u = Some b \<Longrightarrow>
     \<exists>b'. map_of (agents m') u = Some b' \<and> same_object b b'"
  unfolding evolves_def
  by (induction rule: list_all2_induct) (auto split: if_splits)

lemma distinct_evolves: "evolves m m' \<Longrightarrow> distinct (map fst (agents m)) \<Longrightarrow> distinct (map fst (agents m'))"
  by (simp add: evolves_keys)

lemma evolves_pollution_update:
  "distinct (map fst (agents m)) \<Longrightarrow> evolves m (pollution_update f v m)"
  by (auto simp: pollution_update_def evolves_set_agent split: option.splits agent.splits)

lemma evolves_fold_pollution_update:
  "distinct (map fst (agents m)) \<Longrightarrow> evolves m (fold (pollution_update f) vs m)"
proof (induction vs arbitrary: m)
  case Nil
  then show ?case by simp
next
  case (Cons v vs)
  have 1: "evolves m (pollution_update f v m)" using Cons.prems by (rule evolves_pollution_update)
  then have "distinct (map fst (agents (pollution_update f v m)))"
    using Cons.prems by (rule distinct_evolves)
  then have "evolves (pollution_update f v m) (fold (pollution_update f) vs (pollution_update f v m))"
    by (rule Cons.IH)
  with 1 show ?case by (auto intro: evolves_trans)
qed

lemma evolves_PollutionCell_step:
  "distinct (map fst (agents m)) \<Longrightarrow> map_of (agents m) u = Some (PollutionCell p c) \<Longrightarrow>
     evolves m (PollutionCell_step u p c m)"
  by (simp add: PollutionCell_step_def Let_def evolves_set_agent)

lemma evolves_PollutionCell_advance:
  "distinct (map fst (agents m)) \<Longrightarrow> map_of (agents m) u = Some (PollutionCell p c) \<Longrightarrow>
     evolves m (PollutionCell_advance u p c m)"
  by (simp add: PollutionCell_advance_def evolves_set_agent)

lemma evolves_FactoryAgent_step:
  "distinct (map fst (agents m)) \<Longrightarrow> evolves m (FactoryAgent_step u p m)"
  by (simp add: FactoryAgent_step_def evolves_fold_pollution_update)

lemma evolves_TreeAgent_step:
  assumes "distinct (map fst (agents m))" "map_of (agents m) u = Some (TreeAgent p alive)"
  shows "evolves m (TreeAgent_step u p alive m)"
proof (cases alive)
  case False
  then show ?thesis by (simp add: TreeAgent_step_def)
next
  case True
  let ?m1 = "fold (pollution_update (\<lambda>c. fmul c float_0_7)) (get_cell_list_contents m p) m"
  have 1: "evolves m ?m1" using assms(1) by (rule evolves_fold_pollution_update)
  then have d: "distinct (map fst (agents ?m1))" using assms(1) by (rule distinct_evolves)
  have l: "map_of (agents ?m1) u = Some (TreeAgent p alive)"
    using assms(2) by (rule keep_fold_pollution_update) simp
  have "evolves ?m1 (set_agent u (TreeAgent p False) ?m1)"
    using d l by (rule evolves_set_agent) simp
  with 1 have 2: "evolves m (set_agent u (TreeAgent p False) ?m1)" by (rule evolves_trans)
  show ?thesis unfolding TreeAgent_step_def Let_def using 1 2 True by simp
qed

lemma evolves_CarAgent_step:
  assumes "distinct (map fst (agents m))" "map_of (agents m) u = Some (CarAgent p)"
    and "CarAgent_step u p m = Inr m'"
  shows "evolves m m'"
proof -
  from assms(3) obtain q m1 where c: "choice (get_neighborhood m p) m = Inr (q, m1)"
    and m': "m' = fold (pollution_update (\<lambda>c. fadd c (Finite 10))) (get_cell_list_contents (move_agent u p q m1) q)
                    (move_agent u p q m1)"
    by (auto simp: CarAgent_step_def Let_def split: sum.splits)
  from choice_Inr [OF c] have m1: "m1 = m\<lparr>draws := Suc (draws m)\<rparr>" by simp
  let ?m2 = "move_agent u p q m1"
  have "evolves m (set_agent u (CarAgent q) m)" using assms(1,2) by (rule evolves_set_agent) simp
  then have 1: "evolves m ?m2"
    by (simp add: evolves_def agents_move_agent m1 set_agent_def)
  then have "distinct (map fst (agents ?m2))" using assms(1) by (rule distinct_evolves)
  then have "evolves ?m2 m'" unfolding m' by (rule evolves_fold_pollution_update)
  with 1 show ?thesis by (rule evolves_trans)
qed

lemma evolves_agent_step:
  assumes "distinct (map fst (agents m))" "agent_step u m = Inr m'"
  shows "evolves m m'"
proof (cases "map_of (agents m) u")
  case None
  then show ?thesis using assms(2) by (simp add: agent_step_def)
next
  case (Some a)
  show ?thesis
  proof (cases a)
    case (PollutionCell p c)
    then show ?thesis
      using assms Some evolves_PollutionCell_step [of m u p c] by (auto simp: agent_step_def)
  next
    case (CarAgent p)
    then show ?thesis
      using assms Some evolves_CarAgent_step [of m u p m'] by (simp add: agent_step_def)
  next
    case (FactoryAgent p)
    then show ?thesis
      using assms Some evolves_FactoryAgent_step [of m u p] by (auto simp: agent_step_def)
  next
    case (TreeAgent p alive)
    then show ?thesis
      using assms Some evolves_TreeAgent_step [of m u p alive] by (auto simp: agent_step_def)
  qed
qed

lemma evolves_agent_advance:
  assumes "distinct (map fst (agents m))" "agent_advance u m = Inr m'"
  shows "evolves m m'"
  using assms evolves_PollutionCell_advance [of m u]
  by (auto simp: agent_advance_def split: option.splits agent.splits)

lemma evolves_for_each:
  assumes "for_each f vs m = Inr m'" "distinct (map fst (agents m))"
    and "\<And>v t t'. distinct (map fst (agents t)) \<Longrightarrow> f v t = Inr t' \<Longrightarrow> evolves t t'"
  shows "evolves m m'"
proof -
  have "distinct (map fst (agents m)) \<and> evolves m m" using assms(2) by simp
  with assms(1) have "distinct (map fst (agents m')) \<and> evolves m m'"
  proof (rule for_each_invariant)
    fix v t t' assume a: "distinct (map fst (agents t)) \<and> evolves m t" "f v t = Inr t'"
    then have e: "evolves t t'" using assms(3) by blast
    with a show "distinct (map fst (agents t')) \<and> evolves m t'"
      by (auto intro: evolves_trans distinct_evolves)
  qed
  then show ?thesis ..
qed

lemma evolves_step:
  assumes "distinct (map fst (agents m))" "step m = Inr m'"
  shows "evolves m m'"
proof -
  from assms(2) have "schedule_step (collect m) = Inr m'" by (simp add: step_def)
  from schedule_step_Inr [OF this] obtain m1 m2 where
    1: "for_each agent_step (map fst (agents (collect m))) (collect m) = Inr m1" and
    2: "for_each agent_advance (map fst (agents m1)) m1 = Inr m2" and
    3: "m' = m2\<lparr>steps := Suc (steps m2)\<rparr>" by blast
  have 0: "evolves m (collect m)" by (rule evolves_agents_eq) (simp add: collect_def)
  then have d0: "distinct (map fst (agents (collect m)))" using assms(1) by (rule distinct_evolves)
  have e1: "evolves (collect m) m1" using 1 d0 evolves_agent_step by (rule evolves_for_each)
  then have d1: "distinct (map fst (agents m1))" using d0 by (rule distinct_evolves)
  have e2: "evolves m1 m2" using 2 d1 evolves_agent_advance by (rule evolves_for_each)
  have e3: "evolves m2 m'" by (rule evolves_agents_eq) (simp add: 3)
  from 0 e1 e2 e3 show ?thesis by (blast intro: evolves_trans)
qed

lemma evolves_run:
  assumes "distinct (map fst (agents m))" "run n m = Inr m'"
  shows "evolves m m'"
  using assms
proof (induction n arbitrary: m)
  case 0
  then show ?case by simp
next
  case (Suc n)
  from Suc.prems(2) obtain m1 where s: "step m = Inr m1" and r: "run n m1 = Inr m'"
    by (auto simp: and_then_eq_Inr)
  have e: "evolves m m1" using Suc.prems(1) s by (rule evolves_step)
  then have "distinct (map fst (agents m1))" using Suc.prems(1) by (rule distinct_evolves)
  then have "evolves m1 m'" using r by (rule Suc.IH)
  with e show ?case by (rule evolves_trans)
qed

section \<open>Construction with non-positive dimensions\<close>

lemma all_positions_degenerate: "w \<le> 0 \<or> h \<le> 0 \<Longrightarrow> all_positions w h = []"
  by (auto simp: all_positions_def)

lemma add_agent_degenerate:
  "width m \<le> 0 \<or> height m \<le> 0 \<Longrightarrow> add_agent new_agent i m = Inl ValueError"
  by (auto simp: add_agent_def randrange_def)

lemma for_each_range_degenerate:
  assumes "\<And>i. f i m = Inl ValueError"
  shows "for_each f [0 .. n - 1] m = (if n \<le> 0 then Inr m else Inl ValueError)"
proof (cases "n \<le> 0")
  case True
  then show ?thesis by simp
next
  case False
  then have "[0 .. n - 1] = 0 # [1 .. n - 1]" by (simp add: upto_rec1)
  then show ?thesis using False assms by simp
qed

lemma step_empty:
  "agents m = [] \<Longrightarrow>
     step m = Inr (m\<lparr>samples := samples m @ [(Finite 0, 0, 0)], steps := Suc (steps m)\<rparr>)"
  by (simp add: step_def schedule_step_def collect_def average_pollution_def
      tree_growth_rate_def tree_death_rate_def)

lemma run_empty:
  "agents m = [] \<Longrightarrow>
     run n m = Inr (m\<lparr>samples := samples m @ replicate n (Finite 0, 0, 0),
                       steps := steps m + n\<rparr>)"
proof (induction n arbitrary: m)
  case 0
  then show ?case by simp
next
  case (Suc n)
  let ?m1 = "m\<lparr>samples := samples m @ [(Finite 0, 0, 0)], steps := Suc (steps m)\<rparr>"
  have "agents ?m1 = []" using Suc.prems by simp
  from Suc.IH [OF this] show ?case
    by (simp add: step_empty [OF Suc.prems] replicate_app_Cons_same)
qed

text \<open>
  C4 (as amended).  The constructor validates nothing itself.  When the width or the
  height is not positive, no PollutionCell is created, and construction fails, with the
  \<^verbatim>\<open>ValueError\<close> of the library, exactly when the grid constructor rejects the
  dimensions or one of the three counts is positive (the first random placement draws
  from an empty range).  Otherwise, the dimensions being accepted and no count being
  positive, it succeeds with an empty population, and then any number of ticks runs,
  each recording the sample (0, 0, 0).
\<close>

theorem newModel_degenerate:
  assumes "w \<le> 0 \<or> h \<le> 0"
  shows "newModel grid_ok w h num_cars num_factories num_trees r s =
           (if grid_ok w h \<and> num_cars \<le> 0 \<and> num_factories \<le> 0 \<and> num_trees \<le> 0
            then Inr (empty_model w h r s) else Inl ValueError) \<and>
         (\<forall>n. run n (empty_model w h r s) =
                Inr ((empty_model w h r s)\<lparr>samples := replicate n (Finite 0, 0, 0), steps := n\<rparr>))"
proof -
  have d: "width (empty_model w h r s) \<le> 0 \<or> height (empty_model w h r s) \<le> 0"
    using assms by (simp add: empty_model_def)
  have l: "for_each (\<lambda>i. add_agent new_agent (g i)) [0 .. n - 1] (empty_model w h r s) =
             (if n \<le> 0 then Inr (empty_model w h r s) else Inl ValueError)" for new_agent g n
    by (rule for_each_range_degenerate) (rule add_agent_degenerate [OF d])
  have 1: "newModel grid_ok w h num_cars num_factories num_trees r s =
           (if grid_ok w h \<and> num_cars \<le> 0 \<and> num_factories \<le> 0 \<and> num_trees \<le> 0
            then Inr (empty_model w h r s) else Inl ValueError)"
    by (simp add: newModel_def all_positions_degenerate [OF assms] l)
  have "agents (empty_model w h r s) = []" by (simp add: empty_model_def)
  from run_empty [OF this]
  have 2: "run n (empty_model w h r s) =
             Inr ((empty_model w h r s)\<lparr>samples := replicate n (Finite 0, 0, 0), steps := n\<rparr>)"
    for n
    by (simp add: empty_model_def)
  from 1 2 show ?thesis by blast
qed

theorem newModel_degenerate_witness:
  "newModel (\<lambda>w h. True) 0 5 1 0 0 (\<lambda>i. 0) sum_left_to_right = Inl ValueError \<and>
   newModel (\<lambda>w h. True) 0 5 0 (- 1) 0 (\<lambda>i. 0) sum_left_to_right
     = Inr (empty_model 0 5 (\<lambda>i. 0) sum_left_to_right) \<and>
   succeeds (run 2 (empty_model 0 5 (\<lambda>i. 0) sum_left_to_right))"
  using newModel_degenerate [of 0 5 "\<lambda>w h. True" 1 0 0 "\<lambda>i. 0" sum_left_to_right]
    newModel_degenerate [of 0 5 "\<lambda>w h. True" 0 "- 1" 0 "\<lambda>i. 0" sum_left_to_right]
  by (simp add: succeeds_def)

text \<open>
  The claim as stated fails: with width 0, height 5 and no agents, on a grid constructor
  that accepts the dimensions, the model is constructed and a tick runs.
\<close>

theorem newModel_zero_width_counterexample:
  "newModel (\<lambda>w h. True) 0 5 0 0 0 (\<lambda>i. 0) sum_left_to_right
     = Inr (empty_model 0 5 (\<lambda>i. 0) sum_left_to_right) \<and>
   succeeds (step (empty_model 0 5 (\<lambda>i. 0) sum_left_to_right))"
  by (simp add: newModel_def all_positions_def step_def schedule_step_def collect_def
      empty_model_def succeeds_def)

section \<open>The tree\<close>

lemma grid_fold_pollution_update [simp]: "grid (fold (pollution_update f) vs m) = grid m"
  by (induction vs arbitrary: m) simp_all

lemma grid_TreeAgent_step [simp]: "grid (TreeAgent_step u p alive m) = grid m"
  by (simp add: TreeAgent_step_def Let_def)

lemma exceeds_threshold_is_cell: "exceeds_threshold m v \<Longrightarrow> is_cell m v"
  by (auto simp: exceeds_threshold_def is_cell_iff split: option.splits agent.splits)

lemma list_ex_exceeds_cells:
  "list_ex (exceeds_threshold m) vs = list_ex (exceeds_threshold m) (filter (is_cell m) vs)"
  by (induction vs) (auto dest: exceeds_threshold_is_cell)

lemma tree_alive_step:
  assumes "wf m" and "map_of (agents m) u = Some (TreeAgent p True)"
    and "map_of (agents m) (CellId p) = Some (PollutionCell p c)"
  shows "TreeAgent_step u p True m =
           (if greater (fmul c float_0_7) (Finite 30)
            then set_agent u (TreeAgent p False)
                   (set_agent (CellId p) (PollutionCell p (fmul c float_0_7)) m)
            else set_agent (CellId p) (PollutionCell p (fmul c float_0_7)) m)"
proof -
  let ?m1 = "set_agent (CellId p) (PollutionCell p (fmul c float_0_7)) m"
  have b: "\<not> out_of_bounds m p" using wf_lookup_ok [OF assms(1,2)] by simp
  have e: "fold (pollution_update (\<lambda>c. fmul c float_0_7)) (get_cell_list_contents m p) m = ?m1"
    by (simp add: fold_pollution_update_wf [OF assms(1) b] pollution_update_cell [OF assms(3)])
  have "compatible m (PollutionCell p c) (PollutionCell p (fmul c float_0_7))" by simp
  then have w1: "wf ?m1" by (rule wf_set_agent [OF assms(1,3)])
  have b1: "\<not> out_of_bounds ?m1 p" using b by (simp add: out_of_bounds_def)
  have "filter (is_cell ?m1) (get_cell_list_contents ?m1 p) = [CellId p]"
    using wf_cells_at [OF w1 b1] by (simp add: cells_at_def)
  then have "list_ex (exceeds_threshold ?m1) (get_cell_list_contents ?m1 p)
               = exceeds_threshold ?m1 (CellId p)"
    using list_ex_exceeds_cells [of ?m1 "get_cell_list_contents ?m1 p"] by simp
  also have "\<dots> = (greater (fmul c float_0_7) (Finite 30))"
    using assms(3) by (simp add: exceeds_threshold_def map_of_set_agent)
  finally have le: "list_ex (exceeds_threshold ?m1) (get_cell_list_contents ?m1 p)
                      = (greater (fmul c float_0_7) (Finite 30))" .
  show ?thesis unfolding TreeAgent_step_def Let_def e le by simp
qed

lemma tree_own_step:
  "map_of (agents t) u = Some (TreeAgent p a) \<Longrightarrow> agent_step u t = Inr t' \<Longrightarrow>
     \<exists>a'. map_of (agents t') u = Some (TreeAgent p a') \<and> (\<not> a \<longrightarrow> \<not> a')"
proof -
  assume l: "map_of (agents t) u = Some (TreeAgent p a)" and s: "agent_step u t = Inr t'"
  let ?m1 = "fold (pollution_update (\<lambda>c. fmul c float_0_7)) (get_cell_list_contents t p) t"
  have 1: "map_of (agents ?m1) u = Some (TreeAgent p a)"
    using l by (rule keep_fold_pollution_update) simp
  have "t' = TreeAgent_step u p a t" using l s by (simp add: agent_step_def)
  then show ?thesis
    using l 1 by (auto simp: TreeAgent_step_def Let_def map_of_set_agent)
qed

lemma grid_agent_advance: "agent_advance v m = Inr m' \<Longrightarrow> grid m' = grid m"
  by (auto simp: agent_advance_def PollutionCell_advance_def split: option.splits agent.splits)

lemma grid_CarAgent_step:
  assumes "CarAgent_step v p0 m = Inr m'" "u \<noteq> v" "u \<in> set (grid m p)"
  shows "u \<in> set (grid m' p)"
proof -
  from assms(1) obtain q m1 where c: "choice (get_neighborhood m p0) m = Inr (q, m1)"
    and m': "m' = fold (pollution_update (\<lambda>c. fadd c (Finite 10))) (get_cell_list_contents (move_agent v p0 q m1) q)
                    (move_agent v p0 q m1)"
    by (auto simp: CarAgent_step_def Let_def split: sum.splits)
  from choice_Inr [OF c] have m1: "m1 = m\<lparr>draws := Suc (draws m)\<rparr>" by simp
  have "u \<in> set (grid (move_agent v p0 q m1) p)"
    using assms(2,3)
    by (auto simp: move_agent_def place_agent_def remove_agent_def set_agent_def m1)
  then show ?thesis by (simp add: m')
qed

lemma tree_stays_agent_step:
  assumes "agent_step v t = Inr t'" "map_of (agents t) u = Some (TreeAgent p a)"
    and "u \<in> set (grid t p)"
  shows "u \<in> set (grid t' p)"
proof (cases "map_of (agents t) v")
  case None
  then show ?thesis using assms(1) by (simp add: agent_step_def)
next
  case (Some b)
  show ?thesis
  proof (cases b)
    case (PollutionCell q c)
    then show ?thesis
      using assms Some by (auto simp: agent_step_def PollutionCell_step_def Let_def)
  next
    case (CarAgent q)
    then have "u \<noteq> v" using assms(2) Some by auto
    then show ?thesis
      using assms Some CarAgent grid_CarAgent_step [of v q t t' u p] by (simp add: agent_step_def)
  next
    case (FactoryAgent q)
    then show ?thesis
      using assms Some by (auto simp: agent_step_def FactoryAgent_step_def)
  next
    case (TreeAgent q alive)
    then show ?thesis
      using assms Some by (auto simp: agent_step_def)
  qed
qed

lemma tree_kept_agent_step:
  assumes "agent_step v t = Inr t'" "map_of (agents t) u = Some (TreeAgent p a)"
  shows "\<exists>a'. map_of (agents t') u = Some (TreeAgent p a') \<and> (\<not> a \<longrightarrow> \<not> a')"
proof (cases "v = u")
  case True
  then show ?thesis using assms tree_own_step by blast
next
  case False
  have "map_of (agents t') u = Some (TreeAgent p a)"
    using assms(1,2) by (rule keep_agent_step) (simp_all add: False)
  then show ?thesis by blast
qed

lemma tree_inv_agent_step:
  assumes "tree_inv u p a g t" "agent_step v t = Inr t'"
  shows "tree_inv u p a g t'"
proof -
  from assms(1) obtain a1 where l: "map_of (agents t) u = Some (TreeAgent p a1)"
    and d: "\<not> a \<longrightarrow> \<not> a1" and g: "g \<longrightarrow> u \<in> set (grid t p)"
    by (auto simp: tree_inv_def)
  from tree_kept_agent_step [OF assms(2) l] obtain a2 where
    l2: "map_of (agents t') u = Some (TreeAgent p a2)" and d2: "\<not> a1 \<longrightarrow> \<not> a2" by blast
  have "g \<longrightarrow> u \<in> set (grid t' p)" using g tree_stays_agent_step [OF assms(2) l] by blast
  with l2 d d2 show ?thesis by (auto simp: tree_inv_def)
qed

lemma tree_inv_agent_advance:
  assumes "tree_inv u p a g t" "agent_advance v t = Inr t'"
  shows "tree_inv u p a g t'"
proof -
  from assms(1) obtain a1 where l: "map_of (agents t) u = Some (TreeAgent p a1)"
    and d: "\<not> a \<longrightarrow> \<not> a1" and g: "g \<longrightarrow> u \<in> set (grid t p)"
    by (auto simp: tree_inv_def)
  have "map_of (agents t') u = Some (TreeAgent p a1)"
    using assms(2) l by (rule keep_agent_advance) simp
  then show ?thesis using d g grid_agent_advance [OF assms(2)] by (auto simp: tree_inv_def)
qed

lemma tree_inv_step:
  assumes "tree_inv u p a g m" "step m = Inr m'"
  shows "tree_inv u p a g m'"
proof -
  from assms(2) have "schedule_step (collect m) = Inr m'" by (simp add: step_def)
  from schedule_step_Inr [OF this] obtain m1 m2 where
    1: "for_each agent_step (map fst (agents (collect m))) (collect m) = Inr m1" and
    2: "for_each agent_advance (map fst (agents m1)) m1 = Inr m2" and
    3: "m' = m2\<lparr>steps := Suc (steps m2)\<rparr>" by blast
  have 0: "tree_inv u p a g (collect m)" using assms(1) by (simp add: tree_inv_def collect_def)
  have "tree_inv u p a g m1" using 1 0 tree_inv_agent_step by (rule for_each_invariant)
  with 2 have "tree_inv u p a g m2" using tree_inv_agent_advance by (rule for_each_invariant)
  then show ?thesis by (simp add: tree_inv_def 3)
qed

lemma tree_inv_run: "tree_inv u p a g m \<Longrightarrow> run n m = Inr m' \<Longrightarrow> tree_inv u p a g m'"
proof (induction n arbitrary: m)
  case 0
  then show ?case by simp
next
  case (Suc n)
  from Suc.prems(2) obtain m1 where s: "step m = Inr m1" and r: "run n m1 = Inr m'"
    by (auto simp: and_then_eq_Inr)
  from Suc.prems(1) s have "tree_inv u p a g m1" by (rule tree_inv_step)
  then show ?case using r by (rule Suc.IH)
qed

text \<open>
  C3.  In a well-formed state a tree stands at \<open>p\<close>, where the PollutionCell holds
  pollution \<open>c\<close>.  The tree's step is the call the scheduler makes for it.  A living
  tree multiplies the pollution of that cell by the float 0.7 and is alive afterwards
  exactly when the value now stored in the cell does not exceed 30; a dead tree's step
  changes nothing at all.  The step never changes the grid.  After any number of ticks
  the tree is still registered at \<open>p\<close>, a dead tree is still dead, and a tree that was
  among the contents of its grid cell is still there.
\<close>

theorem tree_mitigation:
  assumes "wf m" and "map_of (agents m) u = Some (TreeAgent p alive)"
    and "map_of (agents m) (CellId p) = Some (PollutionCell p c)"
  shows "agent_step u m = Inr (TreeAgent_step u p alive m) \<and>
         (alive \<longrightarrow>
            map_of (agents (TreeAgent_step u p alive m)) (CellId p)
              = Some (PollutionCell p (fmul c float_0_7)) \<and>
            map_of (agents (TreeAgent_step u p alive m)) u
              = Some (TreeAgent p (\<not> greater (fmul c float_0_7) (Finite 30)))) \<and>
         (\<not> alive \<longrightarrow> TreeAgent_step u p alive m = m) \<and>
         grid (TreeAgent_step u p alive m) = grid m \<and>
         (\<forall>n m'. run n m = Inr m' \<longrightarrow>
            (\<exists>alive'. map_of (agents m') u = Some (TreeAgent p alive') \<and>
                       (\<not> alive \<longrightarrow> \<not> alive')) \<and>
            (u \<in> set (grid m p) \<longrightarrow> u \<in> set (grid m' p)))"
proof -
  have 1: "agent_step u m = Inr (TreeAgent_step u p alive m)"
    using assms(2) by (simp add: agent_step_def)
  have ne: "CellId p \<noteq> u" using assms(2,3) by auto
  have 2: "map_of (agents (TreeAgent_step u p alive m)) (CellId p)
             = Some (PollutionCell p (fmul c float_0_7)) \<and>
           map_of (agents (TreeAgent_step u p alive m)) u
             = Some (TreeAgent p (\<not> greater (fmul c float_0_7) (Finite 30)))" if alive
  proof -
    have l: "map_of (agents m) u = Some (TreeAgent p True)" using assms(2) that by simp
    show ?thesis
      using ne assms(2,3) that by (simp add: tree_alive_step [OF assms(1) l assms(3)] map_of_set_agent)
  qed
  have 3: "TreeAgent_step u p alive m = m" if "\<not> alive"
    using that by (simp add: TreeAgent_step_def)
  have 4: "grid (TreeAgent_step u p alive m) = grid m" by simp
  have 5: "(\<exists>alive'. map_of (agents m') u = Some (TreeAgent p alive') \<and>
                       (\<not> alive \<longrightarrow> \<not> alive')) \<and>
            (u \<in> set (grid m p) \<longrightarrow> u \<in> set (grid m' p))" if "run n m = Inr m'" for n m'
  proof -
    have "tree_inv u p alive (u \<in> set (grid m p)) m" using assms(2) by (simp add: tree_inv_def)
    then have "tree_inv u p alive (u \<in> set (grid m p)) m'" using that by (rule tree_inv_run)
    then show ?thesis by (simp add: tree_inv_def)
  qed
  from 1 2 3 4 5 show ?thesis by blast
qed

text \<open>
  Two instances: from 50 the cell goes to 35.0 and the tree dies; from
  42.85714285714286 the product is rounded to 30.0 exactly, which does not exceed 30, and
  the tree lives.
\<close>

theorem tree_mitigation_witness:
  "wf example_model \<and>
   map_of (agents example_model) (NumId 2) = Some (TreeAgent (0, 0) True) \<and>
   map_of (agents example_model) (CellId (0, 0)) = Some (PollutionCell (0, 0) (Finite 50)) \<and>
   map_of (agents (TreeAgent_step (NumId 2) (0, 0) True example_model)) (CellId (0, 0))
     = Some (PollutionCell (0, 0) (Finite 35)) \<and>
   map_of (agents (TreeAgent_step (NumId 2) (0, 0) True example_model)) (NumId 2)
     = Some (TreeAgent (0, 0) False) \<and>
   map_of (agents (TreeAgent_step (NumId 2) (0, 0) True
       (set_agent (CellId (0, 0))
          (PollutionCell (0, 0) (Finite (1507901660949943 / 35184372088832))) example_model)))
     (CellId (0, 0)) = Some (PollutionCell (0, 0) (Finite 30)) \<and>
   map_of (agents (TreeAgent_step (NumId 2) (0, 0) True
       (set_agent (CellId (0, 0))
          (PollutionCell (0, 0) (Finite (1507901660949943 / 35184372088832))) example_model)))
     (NumId 2) = Some (TreeAgent (0, 0) True)"
proof -
  let ?m = "set_agent (CellId (0, 0))
              (PollutionCell (0, 0) (Finite (1507901660949943 / 35184372088832))) example_model"
  have 1: "wf example_model" by code_simp
  have 2: "map_of (agents example_model) (NumId 2) = Some (TreeAgent (0, 0) True)" by code_simp
  have 3: "map_of (agents example_model) (CellId (0, 0)) = Some (PollutionCell (0, 0) (Finite 50))"
    by code_simp
  have 4: "fmul (Finite 50) float_0_7 = Finite 35" by code_simp
  have 5: "wf ?m" by code_simp
  have 6: "map_of (agents ?m) (NumId 2) = Some (TreeAgent (0, 0) True)" by code_simp
  have 7: "map_of (agents ?m) (CellId (0, 0))
             = Some (PollutionCell (0, 0) (Finite (1507901660949943 / 35184372088832)))"
    by code_simp
  have 8: "fmul (Finite (1507901660949943 / 35184372088832)) float_0_7 = Finite 30" by code_simp
  from tree_mitigation [OF 1 2 3] tree_mitigation [OF 5 6 7] 1 2 3 show ?thesis
    by (simp add: 4 8)
qed

section \<open>The car\<close>












section \<open>The factory\<close>

lemma factory_own_step:
  "map_of (agents t) u = Some (FactoryAgent p) \<Longrightarrow> agent_step u t = Inr t' \<Longrightarrow>
     map_of (agents t') u = Some (FactoryAgent p)"
  by (auto simp: agent_step_def FactoryAgent_step_def keep_fold_pollution_update no_cell_def)

text \<open>
  C6.  In a well-formed state a factory stands at \<open>p\<close>, where the PollutionCell holds
  pollution \<open>c\<close>.  The factory's step is the call the scheduler makes for it; the only
  PollutionCell among the contents of the grid cell \<open>p\<close> is the one of that position;
  after the step it holds the float sum of \<open>c\<close> and 20, which for a finite \<open>c\<close> is
  \<open>c + 20\<close> rounded to the nearest double (decay comes later, in \<^verbatim>\<open>advance\<close>); the
  factory's position is unchanged, the grid is unchanged, and after any number of ticks
  the factory still stands at \<open>p\<close>.
\<close>

theorem factory_emission:
  assumes "wf m" and "map_of (agents m) u = Some (FactoryAgent p)"
    and "map_of (agents m) (CellId p) = Some (PollutionCell p c)"
  shows "agent_step u m = Inr (FactoryAgent_step u p m) \<and>
         cells_at m p = [CellId p] \<and>
         map_of (agents (FactoryAgent_step u p m)) (CellId p)
           = Some (PollutionCell p (fadd c (Finite 20))) \<and>
         (\<forall>a. c = Finite a \<longrightarrow> fadd c (Finite 20) = round_double (a + 20)) \<and>
         map_of (agents (FactoryAgent_step u p m)) u = Some (FactoryAgent p) \<and>
         grid (FactoryAgent_step u p m) = grid m \<and>
         (\<forall>n m'. run n m = Inr m' \<longrightarrow> map_of (agents m') u = Some (FactoryAgent p))"
proof -
  have b: "\<not> out_of_bounds m p" using wf_lookup_ok [OF assms(1,2)] by simp
  have e: "FactoryAgent_step u p m = set_agent (CellId p) (PollutionCell p (fadd c (Finite 20))) m"
    by (simp add: FactoryAgent_step_def fold_pollution_update_wf [OF assms(1) b]
        pollution_update_cell [OF assms(3)])
  have 1: "agent_step u m = Inr (FactoryAgent_step u p m)"
    using assms(2) by (simp add: agent_step_def)
  have 2: "cells_at m p = [CellId p]" using assms(1) b by (rule wf_cells_at)
  have 3: "map_of (agents (FactoryAgent_step u p m)) (CellId p) = Some (PollutionCell p (fadd c (Finite 20)))"
    using assms(3) by (simp add: e map_of_set_agent)
  have 4: "map_of (agents (FactoryAgent_step u p m)) u = Some (FactoryAgent p)"
    using assms(2) 1 by (rule factory_own_step)
  have 5: "grid (FactoryAgent_step u p m) = grid m" by (simp add: e)
  have 6: "map_of (agents m') u = Some (FactoryAgent p)" if "run n m = Inr m'" for n m'
  proof (rule keep_run [OF that assms(2)])
    show "no_cell (FactoryAgent p)" by simp
  qed (rule factory_own_step)
  have 7: "\<forall>a. c = Finite a \<longrightarrow> fadd c (Finite 20) = round_double (a + 20)" by simp
  from 1 2 3 4 5 6 7 show ?thesis by blast
qed

theorem factory_emission_witness:
  "wf example_model \<and>
   map_of (agents example_model) (NumId 1) = Some (FactoryAgent (0, 0)) \<and>
   map_of (agents example_model) (CellId (0, 0)) = Some (PollutionCell (0, 0) (Finite 50)) \<and>
   map_of (agents (FactoryAgent_step (NumId 1) (0, 0) example_model)) (CellId (0, 0))
     = Some (PollutionCell (0, 0) (Finite 70))"
proof -
  have 1: "wf example_model" by code_simp
  have 2: "map_of (agents example_model) (NumId 1) = Some (FactoryAgent (0, 0))" by code_simp
  have 3: "map_of (agents example_model) (CellId (0, 0)) = Some (PollutionCell (0, 0) (Finite 50))"
    by code_simp
  have 4: "fadd (Finite 50) (Finite 20) = Finite 70" by code_simp
  from factory_emission [OF 1 2 3] 1 2 3 4 show ?thesis by simp
qed

text \<open>
  The sum is not always \<open>c + 20\<close>: where the cell of the factory holds the float 0.1, it
  holds the float 20.1 after the factory's step, which is not the sum of the two numbers.
\<close>

theorem factory_emission_counterexample:
  "wf (set_agent (CellId (0, 0))
         (PollutionCell (0, 0) (Finite (3602879701896397 / 36028797018963968))) example_model) \<and>
   map_of (agents (FactoryAgent_step (NumId 1) (0, 0)
       (set_agent (CellId (0, 0))
          (PollutionCell (0, 0) (Finite (3602879701896397 / 36028797018963968))) example_model)))
     (CellId (0, 0))
     = Some (PollutionCell (0, 0) (Finite (2828823515942093 / 140737488355328))) \<and>
   (2828823515942093 / 140737488355328 :: rat) \<noteq> 3602879701896397 / 36028797018963968 + 20"
  by code_simp

section \<open>Metrics\<close>

lemma average_pollution_fold:
  "fold (\<lambda>(u, a) (total_pollution, count).
            case a of PollutionCell p c \<Rightarrow> (fadd total_pollution c, Suc count)
                    | _ \<Rightarrow> (total_pollution, count)) al (t, n) =
     (fold (\<lambda>x total. fadd total x)
        (concat (map (\<lambda>(u, a). case a of PollutionCell p c \<Rightarrow> [c] | _ \<Rightarrow> []) al)) t,
      n + length (concat (map (\<lambda>(u, a). case a of PollutionCell p c \<Rightarrow> [c] | _ \<Rightarrow> []) al)))"
proof (induction al arbitrary: t n)
  case Nil
  show ?case by simp
next
  case (Cons x al)
  obtain u a where x: "x = (u, a)" by (cases x)
  show ?case by (cases a) (simp_all add: x Cons.IH)
qed

lemma average_pollution_mean: "average_pollution m = float_mean (pollution_values m)"
  by (simp add: average_pollution_def average_pollution_fold float_mean_def pollution_values_def
      sum_left_to_right_def)

lemma count_alive:
  "sum_list (map (\<lambda>(u, a). case a of TreeAgent p alive \<Rightarrow> (if alive then 1 else 0) | _ \<Rightarrow> 0) al)
     = length (filter (\<lambda>a. case a of TreeAgent p alive \<Rightarrow> alive | _ \<Rightarrow> False) (map snd al))"
  by (induction al) (auto split: agent.splits)

lemma count_dead:
  "sum_list (map (\<lambda>(u, a). case a of TreeAgent p alive \<Rightarrow> (if \<not> alive then 1 else 0) | _ \<Rightarrow> 0) al)
     = length (filter (\<lambda>a. case a of TreeAgent p alive \<Rightarrow> \<not> alive | _ \<Rightarrow> False) (map snd al))"
  by (induction al) (auto split: agent.splits)

lemma tree_growth_rate_count: "tree_growth_rate m = length (alive_trees m)"
  unfolding tree_growth_rate_def alive_trees_def by (rule count_alive)

lemma tree_death_rate_count: "tree_death_rate m = length (dead_trees m)"
  unfolding tree_death_rate_def dead_trees_def by (rule count_dead)

text \<open>
  C8.  A tick that completes appends exactly one sample to the recorded metrics, and the
  sample is computed from the state before the tick (\<^verbatim>\<open>collect\<close> runs before
  \<^verbatim>\<open>schedule.step\<close>).  Its first component is the mean of the pollution of all
  PollutionCells as floats compute it: the values are added in registration order,
  starting from 0 and rounding after every addition, and the total is divided by their
  number, rounding once more (0 when there is no cell).  Its second component is the
  number of trees with \<open>alive = True\<close>, its third the number of trees with
  \<open>alive = False\<close>.
\<close>

theorem step_records_sample:
  assumes "step m = Inr m'"
  shows "samples m' =
           samples m @ [(float_mean (pollution_values m), length (alive_trees m),
                         length (dead_trees m))]"
proof -
  have "samples m' = samples (collect m)"
    using assms schedule_step_frame(4) by (simp add: step_def)
  then show ?thesis
    by (simp add: collect_def average_pollution_mean tree_growth_rate_count
        tree_death_rate_count)
qed

theorem step_records_sample_witness:
  "\<exists>m'. step example_model = Inr m' \<and> samples m' = [(Finite 25, 1, 1)]"
proof -
  have "succeeds (step example_model)" by code_simp
  then obtain m' where s: "step example_model = Inr m'" by (rule succeedsE)
  have "samples m' = samples example_model @
          [(float_mean (pollution_values example_model), length (alive_trees example_model),
            length (dead_trees example_model))]"
    using step_records_sample [OF s] .
  also have "\<dots> = [(Finite 25, 1, 1)]" by code_simp
  finally show ?thesis using s by blast
qed

text \<open>
  The recorded value is not always the arithmetic mean of the numbers: for the cells 10, 0
  and 0 the tick records the float 3.3333333333333335, which is not 10/3.
\<close>

theorem step_records_sample_counterexample:
  "succeeds (step three_cells_model) \<and>
   pollution_values three_cells_model = [Finite 10, Finite 0, Finite 0] \<and>
   samples (projr (step three_cells_model))
     = [(Finite (7505999378950827 / 2251799813685248), 0, 0)] \<and>
   mean [10, 0, 0] \<noteq> 7505999378950827 / 2251799813685248"
  by code_simp

end
